theory Spec2Isabelle
  imports Main "HOL-Library.Sublist" "HOL-Library.Multiset"
begin

section \<open>Errors and the clock\<close>

text \<open>
  An error object as the retry wrapper and the sanitizer read it: \<open>error.name\<close>,
  \<open>error.message\<close>, \<open>error.status\<close>, \<open>error.code\<close> (the four properties a sanitized copy
  keeps) and the response header \<open>error.response.headers['x-ratelimit-reset']\<close> (seconds
  since the epoch). A property that is \<open>undefined\<close> is \<open>None\<close>.
\<close>

record error_info =
  err_name :: "string option"
  err_message :: "string option"
  err_status :: "int option"
  err_code :: "string option"

record js_error = error_info +
  ratelimit_reset :: "int option"

text \<open>
  The part of the process state every asynchronous function sees: the wall clock in
  milliseconds (\<open>new Date()\<close>) and the arguments \<open>delay\<close> has been called with. The record
  is extended below by what a mock operation and what one repository's processing add.
\<close>

record world =
  now :: int
  waits :: "int list"

text \<open>
  \<open>setTimeout(callback, ms)\<close> of Node: the timer fires \<open>ms\<close> milliseconds later when \<open>ms\<close> is
  at least 1 and at most \<open>TIMEOUT_MAX\<close>, which is \<open>2^31 - 1\<close>. For every other argument,
  zero, negative or larger than \<open>TIMEOUT_MAX\<close>, the delay is set to 1.
\<close>

definition TIMEOUT_MAX :: int where
  "TIMEOUT_MAX = 2147483647"

definition timeout_after :: "int \<Rightarrow> int" where
  "timeout_after ms = (if 1 \<le> ms \<and> ms \<le> TIMEOUT_MAX then ms else 1)"

text \<open>\<open>const delay = (ms) => new Promise(resolve => setTimeout(resolve, ms))\<close>.\<close>

definition delay :: "int \<Rightarrow> 'z world_scheme \<Rightarrow> 'z world_scheme" where
  "delay ms w = w\<lparr>now := now w + timeout_after ms, waits := waits w @ [ms]\<rparr>"

text \<open>\<open>String.prototype.includes\<close>.\<close>

fun str_includes :: "string \<Rightarrow> string \<Rightarrow> bool" where
  "str_includes [] t = (t = [])"
| "str_includes (c # cs) t = (prefix t (c # cs) \<or> str_includes cs t)"

section \<open>Redacting credentials\<close>

definition alnum :: "char \<Rightarrow> bool" where
  "alnum c \<longleftrightarrow> c \<in> set ''abcdefghijklmnopqrstuvwxyzABCDEFGHIJKLMNOPQRSTUVWXYZ0123456789''"

text \<open>The character class \<open>[a-zA-Z0-9._-]\<close>.\<close>

definition token_char :: "char \<Rightarrow> bool" where
  "token_char c \<longleftrightarrow> alnum c \<or> c \<in> set ''._-''"

text \<open>
  The four regular expressions of \<open>sanitizeErrorForLogging\<close>, each as the function that
  says whether the expression matches at the start of a string, and how many characters
  the match takes: \<open>/ghp_[a-zA-Z0-9]{36}/\<close>,
  \<open>/github_pat_[a-zA-Z0-9]{22}_[a-zA-Z0-9]{59}/\<close>, \<open>/Bearer [a-zA-Z0-9._-]+/\<close> and
  \<open>/Authorization: [a-zA-Z0-9._-]+/\<close> (\<open>+\<close> is greedy).
\<close>

definition match_ghp :: "string \<Rightarrow> nat option" where
  "match_ghp s =
     (if take 4 s = ''ghp_'' \<and> length (take 36 (drop 4 s)) = 36 \<and>
         list_all alnum (take 36 (drop 4 s))
      then Some 40 else None)"

definition match_github_pat :: "string \<Rightarrow> nat option" where
  "match_github_pat s =
     (if take 11 s = ''github_pat_'' \<and> length (take 22 (drop 11 s)) = 22 \<and>
         list_all alnum (take 22 (drop 11 s)) \<and> take 1 (drop 33 s) = ''_'' \<and>
         length (take 59 (drop 34 s)) = 59 \<and> list_all alnum (take 59 (drop 34 s))
      then Some 93 else None)"

definition match_bearer :: "string \<Rightarrow> nat option" where
  "match_bearer s =
     (if take 7 s = ''Bearer '' \<and> takeWhile token_char (drop 7 s) \<noteq> []
      then Some (7 + length (takeWhile token_char (drop 7 s))) else None)"

definition match_authorization :: "string \<Rightarrow> nat option" where
  "match_authorization s =
     (if take 15 s = ''Authorization: '' \<and> takeWhile token_char (drop 15 s) \<noteq> []
      then Some (15 + length (takeWhile token_char (drop 15 s))) else None)"

text \<open>
  \<open>str.replace(/re/g, rep)\<close> for a regular expression that never matches the empty
  string: scan from the left, replace the match found at the current position and go on
  after it, otherwise keep the character and move one position on. A match of \<open>n \<ge> 1\<close>
  characters at \<open>c # cs\<close> leaves \<open>drop (n - 1) cs\<close>.
\<close>

fun replace_all :: "(string \<Rightarrow> nat option) \<Rightarrow> string \<Rightarrow> string \<Rightarrow> string" where
  "replace_all m rep [] = []"
| "replace_all m rep (c # cs) =
     (case m (c # cs) of
        Some n \<Rightarrow> rep @ replace_all m rep (drop (n - 1) cs)
      | None \<Rightarrow> c # replace_all m rep cs)"

text \<open>The chain of four \<open>replace\<close> calls of \<open>sanitizeErrorForLogging\<close>.\<close>

definition redact :: "string \<Rightarrow> string" where
  "redact m =
     replace_all match_authorization ''Authorization: [REDACTED]''
       (replace_all match_bearer ''Bearer [REDACTED]''
         (replace_all match_github_pat ''[REDACTED_TOKEN]''
           (replace_all match_ghp ''[REDACTED_TOKEN]'' m)))"

text \<open>
  \<open>sanitizeErrorForLogging(error)\<close>: \<open>None\<close> is a falsy \<open>error\<close>, for which the function
  returns the string \<open>'Unknown error'\<close> (\<open>Inl\<close>); otherwise a new object with the four safe
  properties, the message redacted when it is a non-empty string.
\<close>

definition sanitizeErrorForLogging :: "'z error_info_scheme option \<Rightarrow> string + error_info" where
  "sanitizeErrorForLogging error =
     (case error of
        None \<Rightarrow> Inl ''Unknown error''
      | Some e \<Rightarrow>
          Inr \<lparr>err_name = err_name e,
               err_message =
                 (case err_message e of
                    Some m \<Rightarrow> if m \<noteq> [] then Some (redact m) else Some m
                  | None \<Rightarrow> None),
               err_status = err_status e, err_code = err_code e\<rparr>)"

text \<open>
  What \<open>Logger.error(message, error)\<close> writes for an error object: a copy with the four
  safe properties, its message put through the logger's own three \<open>replace\<close> calls.
\<close>

definition logger_redact :: "string \<Rightarrow> string" where
  "logger_redact m =
     replace_all match_bearer ''Bearer [REDACTED]''
       (replace_all match_github_pat ''[REDACTED_TOKEN]''
         (replace_all match_ghp ''[REDACTED_TOKEN]'' m))"

definition Logger_error :: "'z error_info_scheme \<Rightarrow> error_info" where
  "Logger_error e =
     \<lparr>err_name = err_name e,
      err_message =
        (case err_message e of
           Some m \<Rightarrow> if m \<noteq> [] then Some (logger_redact m) else Some m
         | None \<Rightarrow> None),
      err_status = err_status e, err_code = err_code e\<rparr>"

section \<open>The retry wrapper\<close>

definition MAX_RETRIES :: nat where
  "MAX_RETRIES = 5"

definition INITIAL_BACKOFF_DELAY :: int where
  "INITIAL_BACKOFF_DELAY = 1000"

definition THROTTLE_DELAY :: int where
  "THROTTLE_DELAY = 1000"

text \<open>
  The \<open>catch\<close> block of \<open>withExponentialBackoff\<close> up to its \<open>delay\<close>: the three retryable
  branches in the order of the source, each giving the argument of \<open>delay\<close>, and the last
  branch (\<open>throw error\<close>) giving \<open>None\<close>. \<open>t\<close> is the clock when the block runs.
\<close>

definition backoff_wait :: "js_error \<Rightarrow> int \<Rightarrow> nat \<Rightarrow> int \<Rightarrow> int option" where
  "backoff_wait error initialDelay retries t =
     (case ratelimit_reset error of
        Some resetTime \<Rightarrow>
          (let waitTime = (resetTime * 1000 - t) + 1000
           in Some (if waitTime > 0 then waitTime else 60000))
      | None \<Rightarrow>
          if err_status error = Some 403 \<and>
             (case err_message error of Some m \<Rightarrow> str_includes m ''rate limit'' | None \<Rightarrow> False)
          then Some (initialDelay * 2 ^ retries)
          else if err_status error = Some 502 \<or> err_status error = Some 503 \<or>
                  err_status error = Some 504
          then Some (initialDelay * 2 ^ retries)
          else None)"

text \<open>
  \<open>withExponentialBackoff(fn, maxRetries, initialDelay)\<close>. The operation \<open>fn\<close> is a state
  transformer that returns its value (\<open>Inr\<close>) or throws (\<open>Inl\<close>). The result is \<open>Inl\<close> for a
  thrown error, \<open>Inr (Some v)\<close> for \<open>return await fn()\<close> and \<open>Inr None\<close> for falling out of
  the \<open>while\<close> loop (the function then returns \<open>undefined\<close>).
\<close>

function withExponentialBackoff_loop ::
  "('z world_scheme \<Rightarrow> (js_error + 'a) \<times> 'z world_scheme) \<Rightarrow> nat \<Rightarrow> int \<Rightarrow> nat \<Rightarrow>
     'z world_scheme \<Rightarrow> (js_error + 'a option) \<times> 'z world_scheme" where
  "withExponentialBackoff_loop fn maxRetries initialDelay retries w =
     (if retries \<le> maxRetries then
        (case fn w of
           (Inr v, w1) \<Rightarrow> (Inr (Some v), w1)
         | (Inl error, w1) \<Rightarrow>
             (case backoff_wait error initialDelay retries (now w1) of
                None \<Rightarrow> (Inl error, w1)
              | Some ms \<Rightarrow>
                  (let w2 = delay ms w1
                   in if Suc retries > maxRetries then (Inl error, w2)
                      else withExponentialBackoff_loop fn maxRetries initialDelay (Suc retries) w2)))
      else (Inr None, w))"
  by pat_completeness auto
termination
  by (relation "measure (\<lambda>(fn, maxRetries, initialDelay, retries, w). Suc maxRetries - retries)") auto

definition withExponentialBackoff ::
  "('z world_scheme \<Rightarrow> (js_error + 'a) \<times> 'z world_scheme) \<Rightarrow> nat \<Rightarrow> int \<Rightarrow>
     'z world_scheme \<Rightarrow> (js_error + 'a option) \<times> 'z world_scheme" where
  "withExponentialBackoff fn maxRetries initialDelay w =
     withExponentialBackoff_loop fn maxRetries initialDelay 0 w"

text \<open>When the \<open>catch\<close> block retries: one of its first three branches is taken.\<close>

definition retryable :: "js_error \<Rightarrow> bool" where
  "retryable error \<longleftrightarrow>
     ratelimit_reset error \<noteq> None \<or>
     (err_status error = Some 403 \<and>
        (case err_message error of Some m \<Rightarrow> str_includes m ''rate limit'' | None \<Rightarrow> False)) \<or>
     err_status error = Some 502 \<or> err_status error = Some 503 \<or> err_status error = Some 504"

subsection \<open>A mock operation\<close>

text \<open>
  An operation for exercising the wrapper, in the way a test double is: it counts its
  invocations, records the clock at each, takes \<open>lat\<close> milliseconds and answers its
  \<open>n\<close>-th invocation (from 0) with the scripted outcome \<open>resp n\<close>.
\<close>

record mock_world = world +
  calls :: nat
  call_times :: "int list"

definition scripted ::
  "(nat \<Rightarrow> nat \<times> (js_error + 'a)) \<Rightarrow> mock_world \<Rightarrow> (js_error + 'a) \<times> mock_world" where
  "scripted resp w =
     (case resp (calls w) of
        (lat, r) \<Rightarrow>
          (r, w\<lparr>calls := calls w + 1, call_times := call_times w @ [now w],
                now := now w + int lat\<rparr>))"

definition mock_start :: "int \<Rightarrow> mock_world" where
  "mock_start t = \<lparr>now = t, waits = [], calls = 0, call_times = []\<rparr>"

subsection \<open>Sample operations\<close>

text \<open>A transient upstream error (HTTP 502) and an operation that throws it twice before it
  returns 42, and one that throws it seven times.\<close>

definition bad_gateway :: js_error where
  "bad_gateway = \<lparr>err_name = Some ''HttpError'', err_message = Some ''Bad Gateway'',
     err_status = Some 502, err_code = None, ratelimit_reset = None\<rparr>"

definition fails_twice :: "nat \<Rightarrow> nat \<times> (js_error + nat)" where
  "fails_twice i = (if i < 2 then (0, Inl bad_gateway) else (0, Inr 42))"

definition fails_seven_times :: "nat \<Rightarrow> nat \<times> (js_error + nat)" where
  "fails_seven_times i = (if i < 7 then (0, Inl bad_gateway) else (0, Inr 42))"

text \<open>A rate-limit error whose \<open>x-ratelimit-reset\<close> header is \<open>resetTime\<close> (in seconds), and
  an operation that throws it once before it returns 42.\<close>

definition rate_limited :: "int \<Rightarrow> js_error" where
  "rate_limited resetTime = \<lparr>err_name = Some ''HttpError'',
     err_message = Some ''API rate limit exceeded'', err_status = Some 429, err_code = None,
     ratelimit_reset = Some resetTime\<rparr>"

definition limited_once :: "int \<Rightarrow> nat \<Rightarrow> nat \<times> (js_error + nat)" where
  "limited_once resetTime i = (if i = 0 then (0, Inl (rate_limited resetTime)) else (0, Inr 42))"

section \<open>Branch protection settings and the remote API\<close>

record check =
  check_context :: string
  app_id :: "int option"

record status_checks =
  strict :: bool
  contexts :: "string list"
  checks :: "check list option"

text \<open>\<open>restrictions.users\<close> and \<open>restrictions.teams\<close>, each user by its \<open>login\<close> and each team
  by its \<open>slug\<close>.\<close>

record restrictions_data =
  users :: "string list option"
  teams :: "string list option"

text \<open>
  The \<open>data\<close> of a \<open>getBranchProtection\<close> response. \<open>enforce_admins\<close>,
  \<open>allow_force_pushes\<close> and \<open>allow_deletions\<close> hold the \<open>enabled\<close> flag of the property
  (\<open>None\<close> when the property or the flag is missing);
  \<open>required_pull_request_reviews\<close> is passed on as it is.
\<close>

record protection =
  required_status_checks :: "status_checks option"
  enforce_admins :: "bool option"
  required_pull_request_reviews :: "string option"
  restrictions :: "restrictions_data option"
  allow_force_pushes :: "bool option"
  allow_deletions :: "bool option"

text \<open>The object \<open>{}\<close> that \<open>removeChecksFromBranchProtection\<close> puts in the place of missing
  settings.\<close>

definition empty_protection :: protection where
  "empty_protection = \<lparr>required_status_checks = None, enforce_admins = None,
     required_pull_request_reviews = None, restrictions = None, allow_force_pushes = None,
     allow_deletions = None\<rparr>"

text \<open>The parameters of an \<open>updateBranchProtection\<close> request, beside owner, repo and branch.\<close>

record update_request =
  req_enforce_admins :: "bool option"
  req_required_status_checks :: "status_checks option"
  req_required_pull_request_reviews :: "string option"
  req_restrictions :: "(string list \<times> string list) option"
  req_allow_force_pushes :: bool
  req_allow_deletions :: bool

datatype api_call = GetBranchProtection | UpdateBranchProtection update_request

text \<open>
  The remote API as one repository's processing meets it: the \<open>n\<close>-th request (from 0) to
  each of the two endpoints takes the given number of milliseconds and then resolves
  (\<open>Inr\<close>) or rejects (\<open>Inl\<close>).
\<close>

record api =
  getBranchProtection_response :: "nat \<Rightarrow> nat \<times> (js_error + protection)"
  updateBranchProtection_response :: "nat \<Rightarrow> nat \<times> (js_error + unit)"

text \<open>
  JavaScript values of the objects the branch protection manager returns, and an object
  as the list of its properties; reading a property the object does not have gives
  \<open>undefined\<close>, here \<open>None\<close>.
\<close>

datatype jsval = JString string | JStrings "string list" | JProtection protection | JNull

type_synonym jsobject = "(string \<times> jsval) list"

definition property :: "jsobject \<Rightarrow> string \<Rightarrow> jsval option" where
  "property obj k = map_of obj k"

text \<open>One element of \<open>reportData\<close>; a property an element does not have is \<open>None\<close>.\<close>

record entry =
  repository :: string
  branch :: string
  status :: string
  reason :: "string option"
  dryRun :: "bool option"
  changes :: "jsval option"
  checksRemaining :: "jsval option"
  error :: "string option"

text \<open>
  The state of one call of \<open>processRepository\<close>: the clock and the delays, the requests
  sent to the API, the error objects written by \<open>logger.error\<close> and the \<open>reportData\<close>
  array (\<open>None\<close> when it is \<open>null\<close>).
\<close>

record item_world = world +
  gets :: nat
  puts :: nat
  requests :: "api_call list"
  logged :: "error_info list"
  reportData :: "entry list option"

definition log_error :: "'z error_info_scheme \<Rightarrow> item_world \<Rightarrow> item_world" where
  "log_error e w = w\<lparr>logged := logged w @ [Logger_error e]\<rparr>"

definition push :: "entry \<Rightarrow> item_world \<Rightarrow> item_world" where
  "push x w = (case reportData w of None \<Rightarrow> w | Some xs \<Rightarrow> w\<lparr>reportData := Some (xs @ [x])\<rparr>)"

section \<open>The branch protection manager\<close>

definition POLICY :: string where
  "POLICY = ''Khulnasoft Smart Policy''"

definition INSIGHTS :: string where
  "INSIGHTS = ''Khulnasoft Insights''"

text \<open>
  \<open>_getBranchProtection\<close>: the settings, or \<open>undefined\<close> (\<open>None\<close>) when the request is
  rejected with status 404 or 403; any other rejection is logged and thrown again.
\<close>

definition getBranchProtection :: "api \<Rightarrow> item_world \<Rightarrow> (js_error + protection option) \<times> item_world" where
  "getBranchProtection a w =
     (case getBranchProtection_response a (gets w) of
        (lat, r) \<Rightarrow>
          (let w1 = w\<lparr>gets := gets w + 1, requests := requests w @ [GetBranchProtection],
                      now := now w + int lat\<rparr>
           in case r of
                Inr data \<Rightarrow> (Inr (Some data), w1)
              | Inl err \<Rightarrow>
                  if err_status err = Some 404 then (Inr None, w1)
                  else if err_status err = Some 403 then (Inr None, w1)
                  else (Inl err, log_error err w1)))"

text \<open>
  The argument \<open>checksToRemove\<close> of the two methods below, whose parameter has the default
  value \<open>[]\<close>. A default value stands in for \<open>undefined\<close> only, so \<open>null\<close> stays \<open>null\<close>
  (\<open>None\<close>).
\<close>

datatype checks_arg = Undefined | Null | Checks "string list"

definition default_checks :: "checks_arg \<Rightarrow> string list option" where
  "default_checks a = (case a of Undefined \<Rightarrow> Some [] | Null \<Rightarrow> None | Checks xs \<Rightarrow> Some xs)"

text \<open>The \<open>TypeError\<close> of reading \<open>checksToRemove.length\<close> when \<open>checksToRemove\<close> is \<open>null\<close>.\<close>

definition null_length_error :: js_error where
  "null_length_error = \<lparr>err_name = Some ''TypeError'',
     err_message = Some ''Cannot read properties of null (reading 'length')'',
     err_status = None, err_code = None, ratelimit_reset = None\<rparr>"

text \<open>A number in decimal, as a template literal prints it.\<close>

definition digit :: "nat \<Rightarrow> char" where
  "digit k = ''0123456789'' ! k"

fun decimal :: "nat \<Rightarrow> string" where
  "decimal n = (if n < 10 then [digit n] else decimal (n div 10) @ [digit (n mod 10)])"

fun join :: "string \<Rightarrow> string list \<Rightarrow> string" where
  "join sep [] = []"
| "join sep [x] = x"
| "join sep (x # y # ys) = x @ sep @ join sep (y # ys)"

text \<open>\<open>checksToRemove.length ? checksToRemove : [KHULNASOFT_CHECKS.POLICY,
  KHULNASOFT_CHECKS.INSIGHTS]\<close>.\<close>

definition checks_or_default :: "string list \<Rightarrow> string list" where
  "checks_or_default checksToRemove =
     (if length checksToRemove \<noteq> 0 then checksToRemove else [POLICY, INSIGHTS])"

definition simulateRemovingChecks ::
  "api \<Rightarrow> checks_arg \<Rightarrow> item_world \<Rightarrow> (js_error + jsobject) \<times> item_world" where
  "simulateRemovingChecks a checksToRemove w =
     (case getBranchProtection a w of
        (Inl e, w1) \<Rightarrow> (Inl e, log_error e w1)
      | (Inr None, w1) \<Rightarrow>
          (Inr [(''error'', JString ''No branch protection settings found''),
                (''original'', JNull), (''simulated'', JNull)], w1)
      | (Inr (Some protectionSettingsData), w1) \<Rightarrow>
          (case required_status_checks protectionSettingsData of
             None \<Rightarrow>
               (Inr [(''message'', JString ''No status checks found to remove''),
                     (''original'', JProtection protectionSettingsData),
                     (''simulated'', JProtection protectionSettingsData)], w1)
           | Some statusChecks \<Rightarrow>
               (case checks statusChecks of
                  None \<Rightarrow>
                    (Inr [(''message'', JString ''No status checks found to remove''),
                          (''original'', JProtection protectionSettingsData),
                          (''simulated'', JProtection protectionSettingsData)], w1)
                | Some cs \<Rightarrow>
                    if length cs = 0 then
                      (Inr [(''message'', JString ''No status checks found to remove''),
                            (''original'', JProtection protectionSettingsData),
                            (''simulated'', JProtection protectionSettingsData)], w1)
                    else
                      (case default_checks checksToRemove of
                         None \<Rightarrow> (Inl null_length_error, log_error null_length_error w1)
                       | Some ctr \<Rightarrow>
                           (let checksToFilter = checks_or_default ctr;
                                originalChecksCount = length cs;
                                filteredChecks =
                                  filter (\<lambda>c. check_context c \<notin> set checksToFilter) cs;
                                simulated =
                                  (if length filteredChecks \<noteq> 0
                                   then protectionSettingsData\<lparr>required_status_checks :=
                                          Some (statusChecks\<lparr>checks := Some filteredChecks\<rparr>)\<rparr>
                                   else protectionSettingsData\<lparr>required_status_checks := None\<rparr>)
                            in (Inr [(''message'', JString (''Would remove '' @
                                        decimal (originalChecksCount - length filteredChecks)
                                        @ '' of '' @ decimal originalChecksCount @ '' checks'')),
                                     (''original'', JProtection protectionSettingsData),
                                     (''simulated'', JProtection simulated)], w1))))))"

definition getEnforceAdmins :: "protection \<Rightarrow> bool option" where
  "getEnforceAdmins protectionSettingsData = enforce_admins protectionSettingsData"

definition getRestrictions :: "protection \<Rightarrow> (string list \<times> string list) option" where
  "getRestrictions protectionSettingsData =
     (case restrictions protectionSettingsData of
        None \<Rightarrow> None
      | Some r \<Rightarrow>
          Some (case users r of Some us \<Rightarrow> us | None \<Rightarrow> [],
                case teams r of Some ts \<Rightarrow> ts | None \<Rightarrow> []))"

text \<open>
  The \<open>required_status_checks\<close> that \<open>removeChecksFromBranchProtection\<close> sends: \<open>null\<close>
  unless some check is left after the filter. Reading \<open>checksToRemove.length\<close> throws when
  \<open>checksToRemove\<close> is \<open>null\<close>.
\<close>

definition filtered_status_checks ::
  "protection \<Rightarrow> checks_arg \<Rightarrow> js_error + status_checks option" where
  "filtered_status_checks protectionSettingsData checksToRemove =
     (case required_status_checks protectionSettingsData of
        None \<Rightarrow> Inr None
      | Some statusChecks \<Rightarrow>
          (case checks statusChecks of
             None \<Rightarrow> Inr None
           | Some cs \<Rightarrow>
               if length cs > 0 then
                 (case default_checks checksToRemove of
                    None \<Rightarrow> Inl null_length_error
                  | Some ctr \<Rightarrow>
                      (let checksToFilter = checks_or_default ctr;
                           filteredChecks =
                             filter (\<lambda>c. check_context c \<notin> set checksToFilter) cs
                       in if length filteredChecks \<noteq> 0
                          then Inr (Some (statusChecks\<lparr>checks := Some filteredChecks\<rparr>))
                          else Inr None))
               else Inr None))"

definition removeChecksFromBranchProtection ::
  "api \<Rightarrow> checks_arg \<Rightarrow> item_world \<Rightarrow> (js_error + jsobject) \<times> item_world" where
  "removeChecksFromBranchProtection a checksToRemove w =
     (case getBranchProtection a w of
        (Inl e, w1) \<Rightarrow> (Inl e, log_error e w1)
      | (Inr found, w1) \<Rightarrow>
          (let protectionSettingsData =
                 (case found of None \<Rightarrow> empty_protection | Some d \<Rightarrow> d);
               enforceAdmins = getEnforceAdmins protectionSettingsData
           in case filtered_status_checks protectionSettingsData checksToRemove of
                Inl e \<Rightarrow> (Inl e, log_error e w1)
              | Inr rsc \<Rightarrow>
                  (let request = \<lparr>req_enforce_admins = enforceAdmins,
                         req_required_status_checks = rsc,
                         req_required_pull_request_reviews =
                           required_pull_request_reviews protectionSettingsData,
                         req_restrictions = getRestrictions protectionSettingsData,
                         req_allow_force_pushes =
                           (case allow_force_pushes protectionSettingsData of
                              Some b \<Rightarrow> b | None \<Rightarrow> False),
                         req_allow_deletions =
                           (case allow_deletions protectionSettingsData of
                              Some b \<Rightarrow> b | None \<Rightarrow> False)\<rparr>
                   in case updateBranchProtection_response a (puts w1) of
                        (lat, r) \<Rightarrow>
                          (let w2 = w1\<lparr>puts := puts w1 + 1,
                                 requests := requests w1 @ [UpdateBranchProtection request],
                                 now := now w1 + int lat\<rparr>
                           in case r of
                                Inl e \<Rightarrow> (Inl e, log_error e w2)
                              | Inr u \<Rightarrow>
                                  (case default_checks checksToRemove of
                                     None \<Rightarrow>
                                       (Inl null_length_error, log_error null_length_error w2)
                                   | Some ctr \<Rightarrow>
                                       (let removedChecks = checks_or_default ctr;
                                            remainingChecks =
                                              (case required_status_checks protectionSettingsData of
                                                 None \<Rightarrow> []
                                               | Some statusChecks \<Rightarrow>
                                                   (case checks statusChecks of
                                                      None \<Rightarrow> []
                                                    | Some cs \<Rightarrow>
                                                        map check_context
                                                          (filter (\<lambda>c. check_context c \<notin>
                                                              set removedChecks) cs)));
                                            checkNames =
                                              (if length ctr \<noteq> 0 then join '', '' ctr
                                               else ''Khulnasoft checks'')
                                        in (Inr [(''message'', JString (''Removed '' @ checkNames @
                                                    '' from branch protection'')),
                                                 (''removedChecks'', JStrings removedChecks),
                                                 (''remainingChecks'', JStrings remainingChecks)],
                                            w2)))))))"

text \<open>\<open>removeKhulnasoftChecks\<close> of the older \<open>GitHubClient\<close> class.\<close>

definition removeKhulnasoftChecks :: "protection \<Rightarrow> status_checks option" where
  "removeKhulnasoftChecks githubBranchProtectionSettings =
     (case required_status_checks githubBranchProtectionSettings of
        None \<Rightarrow> None
      | Some statusChecks \<Rightarrow>
          (case checks statusChecks of
             None \<Rightarrow> None
           | Some cs \<Rightarrow>
               (let filteredChecks =
                      filter (\<lambda>c. check_context c \<notin> set [POLICY, INSIGHTS]) cs
                in if length filteredChecks \<noteq> 0
                   then Some (statusChecks\<lparr>checks := Some filteredChecks\<rparr>)
                   else None)))"

section \<open>Processing one repository\<close>

text \<open>
  The command line as the script reads it, and the configuration constants computed from
  it with \<open>||\<close>: an empty string and the number 0 are falsy, an array never is.
\<close>

record config =
  argv_branch :: "string option"
  argv_dryRun :: bool
  argv_checks :: "string list option"
  argv_concurrency :: nat
  argv_report :: "string option"

definition SPECIFIC_BRANCH :: "config \<Rightarrow> string option" where
  "SPECIFIC_BRANCH cfg =
     (case argv_branch cfg of Some b \<Rightarrow> if b \<noteq> [] then Some b else None | None \<Rightarrow> None)"

definition DRY_RUN :: "config \<Rightarrow> bool" where
  "DRY_RUN cfg = argv_dryRun cfg"

definition CUSTOM_CHECKS :: "config \<Rightarrow> string list option" where
  "CUSTOM_CHECKS cfg = argv_checks cfg"

definition MAX_CONCURRENCY :: "config \<Rightarrow> nat" where
  "MAX_CONCURRENCY cfg = (if argv_concurrency cfg \<noteq> 0 then argv_concurrency cfg else 5)"

definition REPORT_FILE :: "config \<Rightarrow> string option" where
  "REPORT_FILE cfg =
     (case argv_report cfg of Some f \<Rightarrow> if f \<noteq> [] then Some f else None | None \<Rightarrow> None)"

record repo =
  name :: string
  defaultBranch :: string

definition branch_of :: "config \<Rightarrow> repo \<Rightarrow> string" where
  "branch_of cfg r = (case SPECIFIC_BRANCH cfg of Some b \<Rightarrow> b | None \<Rightarrow> defaultBranch r)"

text \<open>The \<open>catch\<close> block of \<open>processRepository\<close>.\<close>

definition on_error :: "config \<Rightarrow> repo \<Rightarrow> js_error \<Rightarrow> item_world \<Rightarrow> bool \<times> item_world" where
  "on_error cfg r e w =
     (let sanitizedError = sanitizeErrorForLogging (Some e);
          w1 = (case sanitizedError of Inl s \<Rightarrow> w | Inr se \<Rightarrow> log_error se w);
          msg = (case sanitizedError of Inl s \<Rightarrow> None | Inr se \<Rightarrow> err_message se)
      in (False,
          push \<lparr>repository = name r, branch = branch_of cfg r, status = ''error'',
                reason = None, dryRun = None, changes = None, checksRemaining = None,
                error = Some (case msg of
                                Some m \<Rightarrow> if m \<noteq> [] then m else ''Unknown error''
                              | None \<Rightarrow> ''Unknown error'')\<rparr> w1))"

text \<open>The branch taken when \<open>protectionBefore\<close> is falsy.\<close>

definition on_unprotected :: "config \<Rightarrow> repo \<Rightarrow> item_world \<Rightarrow> bool \<times> item_world" where
  "on_unprotected cfg r w =
     (True,
      push \<lparr>repository = name r, branch = branch_of cfg r, status = ''skipped'',
            reason = Some ''No branch protection found'', dryRun = None,
            changes = Some (JStrings []), checksRemaining = None, error = None\<rparr> w)"

text \<open>The operation that the apply path hands to the retry wrapper: remove the checks, then
  push the \<open>updated\<close> element.\<close>

definition apply_changes ::
  "config \<Rightarrow> api \<Rightarrow> repo \<Rightarrow> checks_arg \<Rightarrow> item_world \<Rightarrow> (js_error + jsobject) \<times> item_world" where
  "apply_changes cfg a r checksToRemove w =
     (case removeChecksFromBranchProtection a checksToRemove w of
        (Inl e, w1) \<Rightarrow> (Inl e, w1)
      | (Inr result, w1) \<Rightarrow>
          (Inr result,
           push \<lparr>repository = name r, branch = branch_of cfg r, status = ''updated'',
                 reason = None, dryRun = None, changes = property result ''removedChecks'',
                 checksRemaining = property result ''remainingChecks'', error = None\<rparr> w1))"

text \<open>
  \<open>processRepository\<close>. \<open>index\<close> and \<open>total\<close> (here \<open>total_count\<close>) are used in log lines only. The value read as
  \<open>changes.modified\<close> decides between two log lines and nothing else.
\<close>

definition processRepository ::
  "config \<Rightarrow> api \<Rightarrow> repo \<Rightarrow> nat \<Rightarrow> nat \<Rightarrow> item_world \<Rightarrow> bool \<times> item_world" where
  "processRepository cfg a r index total_count w =
     (case withExponentialBackoff (getBranchProtection a) MAX_RETRIES INITIAL_BACKOFF_DELAY
             (delay THROTTLE_DELAY w) of
        (Inl e, w1) \<Rightarrow> on_error cfg r e w1
      | (Inr None, w1) \<Rightarrow> on_unprotected cfg r w1
      | (Inr (Some None), w1) \<Rightarrow> on_unprotected cfg r w1
      | (Inr (Some (Some protectionBefore)), w1) \<Rightarrow>
          (let checksToRemove =
                 (case CUSTOM_CHECKS cfg of Some xs \<Rightarrow> Checks xs | None \<Rightarrow> Null)
           in if DRY_RUN cfg then
                (case simulateRemovingChecks a checksToRemove w1 of
                   (Inl e, w2) \<Rightarrow> on_error cfg r e w2
                 | (Inr changes', w2) \<Rightarrow>
                     (True,
                      push \<lparr>repository = name r, branch = branch_of cfg r,
                            status = ''simulated'', reason = None, dryRun = Some True,
                            changes = property changes' ''removedChecks'',
                            checksRemaining = property changes' ''remainingChecks'',
                            error = None\<rparr> w2))
              else
                (case withExponentialBackoff (apply_changes cfg a r checksToRemove) MAX_RETRIES
                        INITIAL_BACKOFF_DELAY w1 of
                   (Inl e, w2) \<Rightarrow> on_error cfg r e w2
                 | (Inr result, w2) \<Rightarrow> (True, w2))))"

section \<open>The batch scheduler and the report\<close>

text \<open>
  Each call of \<open>processRepository\<close> in a batch starts when the batch starts, with its own
  view of the API; what it pushes is appended to the shared \<open>reportData\<close> array when it
  completes.
\<close>

definition item_start :: "int \<Rightarrow> bool \<Rightarrow> item_world" where
  "item_start t reporting =
     \<lparr>now = t, waits = [], gets = 0, puts = 0, requests = [], logged = [],
      reportData = (if reporting then Some [] else None)\<rparr>"

text \<open>One batch: when it was started, the indices of its repositories, when the call
  for each of them completed, the indices in the order in which the calls completed, and
  when \<open>Promise.all\<close> resolved.\<close>

record batch_record =
  started :: int
  members :: "nat list"
  finished :: "int list"
  completion :: "nat list"
  settled :: int

record run_state =
  clock :: int
  updatedRepos :: nat
  report_data :: "entry list option"
  batches :: "batch_record list"
  pauses :: "int list"
  api_requests :: "(nat \<times> api_call) list"
  error_log :: "error_info list"

definition pushed :: "item_world \<Rightarrow> entry list" where
  "pushed w = (case reportData w of Some ys \<Rightarrow> ys | None \<Rightarrow> [])"

text \<open>
  The calls of a batch run concurrently, and the order in which they complete is not the
  program's to choose. The clock of the model counts whole milliseconds: a call that
  completes at an earlier time than another completes before it, and calls that
  complete at the same time may complete in any order. \<open>completion_orders\<close> lists every
  order in which the calls of a batch may complete: the arrangements of the calls that
  are sorted by completion time.
\<close>

fun placements :: "'a \<Rightarrow> 'a list \<Rightarrow> 'a list list" where
  "placements x [] = [x] # []"
| "placements x (y # ys) = (x # y # ys) # map ((#) y) (placements x ys)"

fun arrangements :: "'a list \<Rightarrow> 'a list list" where
  "arrangements [] = [] # []"
| "arrangements (x # xs) = concat (map (placements x) (arrangements xs))"

definition completion_orders ::
  "(nat \<times> bool \<times> item_world) list \<Rightarrow> (nat \<times> bool \<times> item_world) list list" where
  "completion_orders outcomes =
     filter (\<lambda>cs. sorted (map (\<lambda>(k, ok, w). now w) cs)) (arrangements outcomes)"

text \<open>
  \<open>batch.map((repo, batchIndex) => processRepository(..., i + batchIndex, ...))\<close> for the
  batch that starts at index \<open>i\<close>: each call with its index, the boolean it resolves to
  and its final state.
\<close>

definition promises ::
  "config \<Rightarrow> (nat \<Rightarrow> api) \<Rightarrow> repo list \<Rightarrow> nat \<Rightarrow> run_state \<Rightarrow> (nat \<times> bool \<times> item_world) list" where
  "promises cfg github repos i st =
     (let batch = take (MAX_CONCURRENCY cfg) (drop i repos)
      in map (\<lambda>(batchIndex, r).
                (i + batchIndex,
                 processRepository cfg (github (i + batchIndex)) r (i + batchIndex)
                   (length repos) (item_start (clock st) (report_data st \<noteq> None))))
             (enumerate 0 batch))"

text \<open>
  The state after one round of the \<open>for\<close> loop of \<open>updateBranchProtection\<close>, \<open>i\<close> being its
  counter, \<open>outcomes\<close> the calls of the batch in the order of the batch and \<open>completed\<close> the
  same calls in the order in which they completed. The effects of the calls on the shared
  state take place in the order of completion; \<open>results\<close> keeps the order of the batch, as
  \<open>Promise.all\<close> does, which resolves when the last call has completed.
\<close>

definition settle_batch ::
  "config \<Rightarrow> repo list \<Rightarrow> nat \<Rightarrow> run_state \<Rightarrow> (nat \<times> bool \<times> item_world) list \<Rightarrow>
     (nat \<times> bool \<times> item_world) list \<Rightarrow> run_state" where
  "settle_batch cfg repos i st outcomes completed =
     (let results = map (\<lambda>(k, ok, w). ok) outcomes;
          all_settled = foldr max (map (\<lambda>(k, ok, w). now w) outcomes) (clock st);
          st1 = st\<lparr>clock := all_settled,
                   updatedRepos := updatedRepos st + length (filter (\<lambda>result. result) results),
                   report_data :=
                     (case report_data st of
                        None \<Rightarrow> None
                      | Some xs \<Rightarrow> Some (xs @ concat (map (\<lambda>(k, ok, w). pushed w) completed))),
                   batches := batches st @
                     [\<lparr>started = clock st, members = map fst outcomes,
                       finished = map (\<lambda>(k, ok, w). now w) outcomes,
                       completion = map fst completed,
                       settled = all_settled\<rparr>],
                   api_requests := api_requests st @
                     concat (map (\<lambda>(k, ok, w). map (Pair k) (requests w)) completed),
                   error_log := error_log st @
                     concat (map (\<lambda>(k, ok, w). logged w) completed)\<rparr>
      in if i + MAX_CONCURRENCY cfg < length repos
         then st1\<lparr>clock := clock st1 + timeout_after (THROTTLE_DELAY * 2),
                  pauses := pauses st1 @ [THROTTLE_DELAY * 2]\<rparr>
         else st1)"

text \<open>One round of the loop: the states it may end in, one for each order in which the
  calls of the batch may complete.\<close>

definition process_batch ::
  "config \<Rightarrow> (nat \<Rightarrow> api) \<Rightarrow> repo list \<Rightarrow> nat \<Rightarrow> run_state \<Rightarrow> run_state list" where
  "process_batch cfg github repos i st =
     (let outcomes = promises cfg github repos i st
      in map (settle_batch cfg repos i st outcomes) (completion_orders outcomes))"

text \<open>The \<open>for\<close> loop itself: the states it may end in.\<close>

function updateBranchProtection_loop ::
  "config \<Rightarrow> (nat \<Rightarrow> api) \<Rightarrow> repo list \<Rightarrow> nat \<Rightarrow> run_state \<Rightarrow> run_state list" where
  "updateBranchProtection_loop cfg github repos i st =
     (if i < length repos
      then concat (map (updateBranchProtection_loop cfg github repos (i + MAX_CONCURRENCY cfg))
                    (process_batch cfg github repos i st))
      else [st])"
  by pat_completeness auto
termination
  by (relation "measure (\<lambda>(cfg, github, repos, i, st). length repos - i)")
     (auto simp: MAX_CONCURRENCY_def)

text \<open>\<open>updateBranchProtection(github, owner, repos, reportData)\<close>, started at time \<open>t\<close>;
  \<open>reporting\<close> says that \<open>reportData\<close> is an array and not \<open>null\<close>. The result lists the
  states in which the function may return.\<close>

definition updateBranchProtection ::
  "config \<Rightarrow> (nat \<Rightarrow> api) \<Rightarrow> repo list \<Rightarrow> bool \<Rightarrow> int \<Rightarrow> run_state list" where
  "updateBranchProtection cfg github repos reporting t =
     updateBranchProtection_loop cfg github repos 0
       \<lparr>clock = t, updatedRepos = 0, report_data = (if reporting then Some [] else None),
        batches = [], pauses = [], api_requests = [], error_log = []\<rparr>"

record summary =
  totalRepositories :: nat
  repositoriesUpdated :: nat
  repositoriesWithErrors :: nat
  repositoriesSkipped :: nat

record report =
  generated :: int
  report_dryRun :: bool
  customChecks :: "string list option"
  summary :: summary
  details :: "entry list"

text \<open>
  The report that \<open>run\<close> writes to \<open>REPORT_FILE\<close> when \<open>updateBranchProtection\<close> has returned
  in state \<open>st\<close>, if it writes one, with that state.
\<close>

definition write_report :: "config \<Rightarrow> repo list \<Rightarrow> run_state \<Rightarrow> (report \<times> run_state) option" where
  "write_report cfg validRepos st =
     (case REPORT_FILE cfg of
        None \<Rightarrow> None
      | Some file \<Rightarrow>
          (case report_data st of
             None \<Rightarrow> None
           | Some reportData' \<Rightarrow>
               Some (\<lparr>generated = clock st, report_dryRun = DRY_RUN cfg,
                      customChecks = CUSTOM_CHECKS cfg,
                      summary = \<lparr>totalRepositories = length validRepos,
                        repositoriesUpdated = updatedRepos st,
                        repositoriesWithErrors =
                          length (filter (\<lambda>x. status x = ''error'') reportData'),
                        repositoriesSkipped =
                          length (filter (\<lambda>x. status x = ''skipped'') reportData')\<rparr>,
                      details = reportData'\<rparr>, st)))"

text \<open>
  \<open>run\<close>, from the list of repositories that \<open>listRepositories\<close> returned (the token having
  been validated): every way in which the run may end, each with the report written to
  \<open>REPORT_FILE\<close>, if one is written, and the final state. Nothing is processed and
  nothing is written when the list is empty.
\<close>

definition run ::
  "config \<Rightarrow> (nat \<Rightarrow> api) \<Rightarrow> repo list \<Rightarrow> int \<Rightarrow> (report \<times> run_state) option list" where
  "run cfg github repos t =
     (if length repos = 0 then [None]
      else
        (let validRepos = filter (\<lambda>r. name r \<noteq> [] \<and> defaultBranch r \<noteq> []) repos
         in map (write_report cfg validRepos)
              (updateBranchProtection cfg github validRepos (REPORT_FILE cfg \<noteq> None) t)))"

section \<open>Sample inputs\<close>

definition sample_repo :: "string \<Rightarrow> repo" where
  "sample_repo n = \<lparr>name = n, defaultBranch = ''main''\<rparr>"

definition http_error :: "int \<Rightarrow> string \<Rightarrow> js_error" where
  "http_error s m = \<lparr>err_name = Some ''HttpError'', err_message = Some m, err_status = Some s,
     err_code = None, ratelimit_reset = None\<rparr>"

text \<open>Branch protection that requires the status checks with the given names.\<close>

definition requiring :: "string list \<Rightarrow> protection" where
  "requiring cs =
     \<lparr>required_status_checks =
        Some \<lparr>strict = True, contexts = cs,
              checks = Some (map (\<lambda>c. \<lparr>check_context = c, app_id = None\<rparr>) cs)\<rparr>,
      enforce_admins = Some True, required_pull_request_reviews = None, restrictions = None,
      allow_force_pushes = None, allow_deletions = None\<rparr>"

text \<open>An API that answers every lookup at once and in the same way, and accepts every
  update.\<close>

definition always :: "js_error + protection \<Rightarrow> api" where
  "always r = \<lparr>getBranchProtection_response = (\<lambda>n. (0, r)),
     updateBranchProtection_response = (\<lambda>n. (0, Inr ()))\<rparr>"

text \<open>An API whose first lookup is rejected with status 502 and whose later lookups
  succeed.\<close>

definition failing_once :: "protection \<Rightarrow> api" where
  "failing_once p =
     \<lparr>getBranchProtection_response =
        (\<lambda>n. if n = 0 then (0, Inl (http_error 502 ''Bad Gateway'')) else (0, Inr p)),
      updateBranchProtection_response = (\<lambda>n. (0, Inr ()))\<rparr>"

text \<open>A command line: \<open>--dry-run\<close>, \<open>--checks\<close>, \<open>--concurrency\<close>, with \<open>--report report.json\<close>.\<close>

definition options :: "bool \<Rightarrow> string list option \<Rightarrow> nat \<Rightarrow> config" where
  "options dry cs n = \<lparr>argv_branch = None, argv_dryRun = dry, argv_checks = cs,
     argv_concurrency = n, argv_report = Some ''report.json''\<rparr>"




section \<open>Vocabulary of the properties\<close>

text \<open>The four values of \<open>status\<close> in a report.\<close>

definition outcome_status :: "string \<Rightarrow> bool" where
  "outcome_status s \<longleftrightarrow> s \<in> set [''skipped'', ''simulated'', ''updated'', ''error'']"

text \<open>
  Two lists agree batch by batch, for batches of \<open>c\<close> elements: cut both into consecutive
  pieces of length \<open>c\<close>; corresponding pieces hold the same elements, in any order.
\<close>

function same_batches :: "nat \<Rightarrow> 'a list \<Rightarrow> 'a list \<Rightarrow> bool" where
  "same_batches c xs ys =
     (if c = 0 \<or> (xs = [] \<and> ys = []) then xs = ys
      else mset (take c xs) = mset (take c ys) \<and> same_batches c (drop c xs) (drop c ys))"
  by pat_completeness auto
termination
  by (relation "measure (\<lambda>(c, xs, ys). length xs + length ys)") (auto simp: neq_Nil_conv)

text \<open>
  The call of \<open>processRepository\<close> for the repository with index \<open>k\<close> of \<open>repos\<close>, started at
  time \<open>t\<close>: the boolean it resolves to and its final state.
\<close>

definition call ::
  "config \<Rightarrow> (nat \<Rightarrow> api) \<Rightarrow> repo list \<Rightarrow> bool \<Rightarrow> nat \<Rightarrow> int \<Rightarrow> bool \<times> item_world" where
  "call cfg github repos reporting k t =
     processRepository cfg (github k) (repos ! k) k (length repos) (item_start t reporting)"

text \<open>
  A batch was launched and awaited: \<open>finished\<close> holds, for each member, the time at which
  its call, started when the batch started, completed; \<open>completion\<close> arranges the members
  by these times; and the batch settled when the last of the calls completed.
\<close>

definition awaited :: "config \<Rightarrow> (nat \<Rightarrow> api) \<Rightarrow> repo list \<Rightarrow> bool \<Rightarrow> batch_record \<Rightarrow> bool" where
  "awaited cfg github repos reporting b \<longleftrightarrow>
     finished b =
       map (\<lambda>k. now (snd (call cfg github repos reporting k (started b)))) (members b) \<and>
     mset (completion b) = mset (members b) \<and>
     sorted (map (\<lambda>k. now (snd (call cfg github repos reporting k (started b))))
               (completion b)) \<and>
     settled b = foldr max (finished b) (started b)"

text \<open>
  What the calls of the batches \<open>bs\<close> left behind, batch after batch and inside a batch in
  the order of completion; \<open>f k w\<close> is what the call for index \<open>k\<close> left in its final
  state \<open>w\<close>.
\<close>

definition in_completion_order ::
  "config \<Rightarrow> (nat \<Rightarrow> api) \<Rightarrow> repo list \<Rightarrow> bool \<Rightarrow> (nat \<Rightarrow> item_world \<Rightarrow> 'a list) \<Rightarrow>
     batch_record list \<Rightarrow> 'a list" where
  "in_completion_order cfg github repos reporting f bs =
     concat (map (\<lambda>b. concat (map (\<lambda>k. f k (snd (call cfg github repos reporting k (started b))))
                                (completion b))) bs)"




text \<open>A text that may be missing does not contain \<open>t\<close>.\<close>

definition free_of :: "string \<Rightarrow> string option \<Rightarrow> bool" where
  "free_of t text = (case text of None \<Rightarrow> True | Some s \<Rightarrow> \<not> sublist t s)"

text \<open>Neither the error text of an element pushed so far nor the message of an error
  object logged so far contains \<open>t\<close>.\<close>

definition discreet :: "string \<Rightarrow> item_world \<Rightarrow> bool" where
  "discreet t w \<longleftrightarrow>
     list_all (\<lambda>x. free_of t (error x)) (pushed w) \<and>
     list_all (\<lambda>l. free_of t (err_message l)) (logged w)"


section \<open>Properties of the retry wrapper\<close>

declare withExponentialBackoff_loop.simps [simp del]

lemma backoff_wait_retryable: "backoff_wait e d r t \<noteq> None \<longleftrightarrow> retryable e"
  by (auto simp: backoff_wait_def retryable_def Let_def split: option.splits)

lemma loop_returns:
  "retries \<le> maxRetries \<Longrightarrow> fn w = (Inr v, w1) \<Longrightarrow>
   withExponentialBackoff_loop fn maxRetries d retries w = (Inr (Some v), w1)"
  by (subst withExponentialBackoff_loop.simps) simp

lemma loop_throws:
  "retries \<le> maxRetries \<Longrightarrow> fn w = (Inl e, w1) \<Longrightarrow> backoff_wait e d retries (now w1) = None \<Longrightarrow>
   withExponentialBackoff_loop fn maxRetries d retries w = (Inl e, w1)"
  by (subst withExponentialBackoff_loop.simps) simp

lemma loop_retries:
  "retries < maxRetries \<Longrightarrow> fn w = (Inl e, w1) \<Longrightarrow>
   backoff_wait e d retries (now w1) = Some ms \<Longrightarrow>
   withExponentialBackoff_loop fn maxRetries d retries w =
     withExponentialBackoff_loop fn maxRetries d (Suc retries) (delay ms w1)"
  by (subst withExponentialBackoff_loop.simps) (simp add: Let_def)

lemma loop_gives_up:
  "retries = maxRetries \<Longrightarrow> fn w = (Inl e, w1) \<Longrightarrow>
   backoff_wait e d retries (now w1) = Some ms \<Longrightarrow>
   withExponentialBackoff_loop fn maxRetries d retries w = (Inl e, delay ms w1)"
  by (subst withExponentialBackoff_loop.simps) (simp add: Let_def)

lemma calls_delay [simp]: "calls (delay ms w) = calls w"
  by (simp add: delay_def)

lemma scripted_Inr:
  "resp (calls w) = (lat, r) \<Longrightarrow>
   scripted resp w = (r, w\<lparr>calls := calls w + 1, call_times := call_times w @ [now w],
                now := now w + int lat\<rparr>)"
  by (simp add: scripted_def)

lemma loop_calls_bound:
  "retries \<le> maxRetries \<Longrightarrow>
   calls (snd (withExponentialBackoff_loop (scripted resp) maxRetries d retries w))
     \<le> calls w + (Suc maxRetries - retries)"
proof (induction "maxRetries - retries" arbitrary: retries w)
  case 0
  then have eq: "retries = maxRetries" by simp
  obtain lat r where resp: "resp (calls w) = (lat, r)" by (cases "resp (calls w)")
  note sc = scripted_Inr[of resp w, OF resp]
  show ?case
  proof (cases r)
    case (Inr v)
    with sc eq show ?thesis by (simp add: loop_returns)
  next
    case (Inl e)
    show ?thesis
    proof (cases "backoff_wait e d retries (now w + int lat)")
      case None
      with sc Inl eq show ?thesis by (simp add: loop_throws)
    next
      case (Some ms)
      with sc Inl eq show ?thesis by (simp add: loop_gives_up)
    qed
  qed
next
  case (Suc n)
  then have lt: "retries < maxRetries" by simp
  obtain lat r where resp: "resp (calls w) = (lat, r)" by (cases "resp (calls w)")
  note sc = scripted_Inr[of resp w, OF resp]
  show ?case
  proof (cases r)
    case (Inr v)
    with sc lt show ?thesis by (simp add: loop_returns)
  next
    case (Inl e)
    show ?thesis
    proof (cases "backoff_wait e d retries (now w + int lat)")
      case None
      with sc Inl lt show ?thesis by (simp add: loop_throws)
    next
      case (Some ms)
      let ?w2 = "delay ms (w\<lparr>calls := calls w + 1, call_times := call_times w @ [now w],
                now := now w + int lat\<rparr>)"
      have n: "n = maxRetries - Suc retries" using Suc.hyps(2) by simp
      have le: "Suc retries \<le> maxRetries" using lt by simp
      have "calls (snd (withExponentialBackoff_loop (scripted resp) maxRetries d (Suc retries) ?w2))
                \<le> calls ?w2 + (Suc maxRetries - Suc retries)"
        by (rule Suc.hyps(1)[OF n le])
      moreover have "withExponentialBackoff_loop (scripted resp) maxRetries d retries w =
          withExponentialBackoff_loop (scripted resp) maxRetries d (Suc retries) ?w2"
        using sc Inl Some lt by (simp add: loop_retries)
      ultimately show ?thesis using lt by simp
    qed
  qed
qed

lemma loop_fails_then_succeeds:
  assumes "\<forall>i. calls w \<le> i \<and> i < calls w + j \<longrightarrow> (\<exists>lat e. resp i = (lat, Inl e) \<and> retryable e)"
    and "resp (calls w + j) = (lat, Inr v)"
    and "retries + j \<le> maxRetries"
  shows "\<exists>w'. withExponentialBackoff_loop (scripted resp) maxRetries d retries w = (Inr (Some v), w')
              \<and> calls w' = calls w + j + 1"
  using assms
proof (induction j arbitrary: retries w)
  case 0
  then show ?case by (simp add: scripted_Inr loop_returns)
next
  case (Suc j)
  have "calls w \<le> calls w \<and> calls w < calls w + Suc j" by simp
  with Suc.prems(1) obtain l e where resp: "resp (calls w) = (l, Inl e)" and re: "retryable e"
    by blast
  from re obtain ms where ms: "backoff_wait e d retries (now w + int l) = Some ms"
    using backoff_wait_retryable by fastforce
  let ?w2 = "delay ms (w\<lparr>calls := calls w + 1, call_times := call_times w @ [now w],
                now := now w + int l\<rparr>)"
  have c2: "calls ?w2 = calls w + 1" by simp
  have a: "\<forall>i. calls ?w2 \<le> i \<and> i < calls ?w2 + j \<longrightarrow> (\<exists>lat e. resp i = (lat, Inl e) \<and> retryable e)"
    using Suc.prems(1) by (simp add: c2)
  have b: "resp (calls ?w2 + j) = (lat, Inr v)" using Suc.prems(2) by (simp add: c2)
  have c: "Suc retries + j \<le> maxRetries" using Suc.prems(3) by simp
  from Suc.IH[OF a b c] obtain w' where
    w': "withExponentialBackoff_loop (scripted resp) maxRetries d (Suc retries) ?w2 = (Inr (Some v), w')"
       "calls w' = calls ?w2 + j + 1" by blast
  from Suc.prems(3) have lt: "retries < maxRetries" by simp
  have "withExponentialBackoff_loop (scripted resp) maxRetries d retries w =
          withExponentialBackoff_loop (scripted resp) maxRetries d (Suc retries) ?w2"
    using scripted_Inr[of resp w, OF resp] ms lt by (simp add: loop_retries)
  with w' show ?case by simp
qed

lemma loop_exhausted:
  assumes "\<forall>i. calls w \<le> i \<and> i \<le> calls w + j \<longrightarrow> (\<exists>lat e. resp i = (lat, Inl e) \<and> retryable e)"
    and "retries + j = maxRetries"
  shows "\<exists>w' lat e. withExponentialBackoff_loop (scripted resp) maxRetries d retries w = (Inl e, w')
              \<and> resp (calls w + j) = (lat, Inl e) \<and> calls w' = calls w + j + 1"
  using assms
proof (induction j arbitrary: retries w)
  case 0
  have "calls w \<le> calls w \<and> calls w \<le> calls w + 0" by simp
  with "0.prems"(1) obtain l e where resp: "resp (calls w) = (l, Inl e)" and re: "retryable e"
    by blast
  from re obtain ms where ms: "backoff_wait e d retries (now w + int l) = Some ms"
    using backoff_wait_retryable by fastforce
  from "0.prems"(2) have "retries = maxRetries" by simp
  with scripted_Inr[of resp w, OF resp] ms resp show ?case by (simp add: loop_gives_up)
next
  case (Suc j)
  have "calls w \<le> calls w \<and> calls w \<le> calls w + Suc j" by simp
  with Suc.prems(1) obtain l e where resp: "resp (calls w) = (l, Inl e)" and re: "retryable e"
    by blast
  from re obtain ms where ms: "backoff_wait e d retries (now w + int l) = Some ms"
    using backoff_wait_retryable by fastforce
  let ?w2 = "delay ms (w\<lparr>calls := calls w + 1, call_times := call_times w @ [now w],
                now := now w + int l\<rparr>)"
  have c2: "calls ?w2 = calls w + 1" by simp
  have a: "\<forall>i. calls ?w2 \<le> i \<and> i \<le> calls ?w2 + j \<longrightarrow> (\<exists>lat e. resp i = (lat, Inl e) \<and> retryable e)"
    using Suc.prems(1) by (simp add: c2)
  have c: "Suc retries + j = maxRetries" using Suc.prems(2) by simp
  from Suc.IH[OF a c] obtain w' lat' e' where
    w': "withExponentialBackoff_loop (scripted resp) maxRetries d (Suc retries) ?w2 = (Inl e', w')"
       "resp (calls ?w2 + j) = (lat', Inl e')"
       "calls w' = calls ?w2 + j + 1" by blast
  from Suc.prems(2) have lt: "retries < maxRetries" by simp
  have "withExponentialBackoff_loop (scripted resp) maxRetries d retries w =
          withExponentialBackoff_loop (scripted resp) maxRetries d (Suc retries) ?w2"
    using scripted_Inr[of resp w, OF resp] ms lt by (simp add: loop_retries)
  with w' show ?case by (simp add: c2)
qed

subsection \<open>Failing k times, then succeeding\<close>

text \<open>
  Claim C2. Whatever the operation does, the wrapper invokes it at most \<open>maxRetries + 1\<close>
  times. If the operation throws a retryable error at each of its first \<open>k\<close> invocations
  and returns \<open>v\<close> at the next one, then with \<open>k \<le> maxRetries\<close> the wrapper returns \<open>v\<close> and
  the operation has been invoked exactly \<open>k + 1\<close> times, and with \<open>maxRetries < k\<close> the
  wrapper throws the error of the last invocation, after exactly \<open>maxRetries + 1\<close>
  invocations.
\<close>

theorem retry_fails_k_times_then_succeeds:
  "calls (snd (withExponentialBackoff (scripted resp) maxRetries d (mock_start t)))
     \<le> maxRetries + 1 \<and>
   ((\<forall>i<k. \<exists>l e. resp i = (l, Inl e) \<and> retryable e) \<and> resp k = (lat, Inr v) \<longrightarrow>
      (k \<le> maxRetries \<longrightarrow>
         fst (withExponentialBackoff (scripted resp) maxRetries d (mock_start t)) = Inr (Some v) \<and>
         calls (snd (withExponentialBackoff (scripted resp) maxRetries d (mock_start t))) = k + 1) \<and>
      (maxRetries < k \<longrightarrow>
         (\<exists>l e. resp maxRetries = (l, Inl e) \<and>
            fst (withExponentialBackoff (scripted resp) maxRetries d (mock_start t)) = Inl e) \<and>
         calls (snd (withExponentialBackoff (scripted resp) maxRetries d (mock_start t)))
           = maxRetries + 1))"
proof (intro conjI impI)
  show "calls (snd (withExponentialBackoff (scripted resp) maxRetries d (mock_start t)))
     \<le> maxRetries + 1"
    using loop_calls_bound[of 0 maxRetries resp d "mock_start t"]
    by (simp add: withExponentialBackoff_def mock_start_def)
next
  assume h: "(\<forall>i<k. \<exists>l e. resp i = (l, Inl e) \<and> retryable e) \<and> resp k = (lat, Inr v)"
    and k: "k \<le> maxRetries"
  have c0: "calls (mock_start t) = 0" by (simp add: mock_start_def)
  from h have a: "\<forall>i. calls (mock_start t) \<le> i \<and> i < calls (mock_start t) + k \<longrightarrow>
      (\<exists>lat e. resp i = (lat, Inl e) \<and> retryable e)"
    and b: "resp (calls (mock_start t) + k) = (lat, Inr v)"
    by (simp_all add: c0)
  from k have c: "0 + k \<le> maxRetries" by simp
  from loop_fails_then_succeeds[OF a b c, of d] obtain w' where
    "withExponentialBackoff (scripted resp) maxRetries d (mock_start t) = (Inr (Some v), w')"
    "calls w' = k + 1"
    by (auto simp: withExponentialBackoff_def c0)
  then show "fst (withExponentialBackoff (scripted resp) maxRetries d (mock_start t)) = Inr (Some v)"
    and "calls (snd (withExponentialBackoff (scripted resp) maxRetries d (mock_start t))) = k + 1"
    by simp_all
next
  assume h: "(\<forall>i<k. \<exists>l e. resp i = (l, Inl e) \<and> retryable e) \<and> resp k = (lat, Inr v)"
    and k: "maxRetries < k"
  have c0: "calls (mock_start t) = 0" by (simp add: mock_start_def)
  from h k have a: "\<forall>i. calls (mock_start t) \<le> i \<and> i \<le> calls (mock_start t) + maxRetries \<longrightarrow>
      (\<exists>lat e. resp i = (lat, Inl e) \<and> retryable e)"
    by (simp add: c0)
  have c: "0 + maxRetries = maxRetries" by simp
  from loop_exhausted[OF a c, of d] obtain w' l e where
    r: "withExponentialBackoff (scripted resp) maxRetries d (mock_start t) = (Inl e, w')"
    "resp maxRetries = (l, Inl e)"
    "calls w' = maxRetries + 1"
    by (auto simp: withExponentialBackoff_def c0)
  then show "\<exists>l e. resp maxRetries = (l, Inl e) \<and>
            fst (withExponentialBackoff (scripted resp) maxRetries d (mock_start t)) = Inl e"
    by simp
  from r show "calls (snd (withExponentialBackoff (scripted resp) maxRetries d (mock_start t)))
           = maxRetries + 1"
    by simp
qed

lemma retryable_bad_gateway: "retryable bad_gateway"
  by (simp add: retryable_def bad_gateway_def)

theorem retry_fails_k_times_then_succeeds_witness:
  "fst (withExponentialBackoff (scripted fails_twice) MAX_RETRIES INITIAL_BACKOFF_DELAY
          (mock_start 0)) = Inr (Some 42) \<and>
   calls (snd (withExponentialBackoff (scripted fails_twice) MAX_RETRIES INITIAL_BACKOFF_DELAY
          (mock_start 0))) = 3 \<and>
   fst (withExponentialBackoff (scripted fails_seven_times) MAX_RETRIES INITIAL_BACKOFF_DELAY
          (mock_start 0)) = Inl bad_gateway \<and>
   calls (snd (withExponentialBackoff (scripted fails_seven_times) MAX_RETRIES
          INITIAL_BACKOFF_DELAY (mock_start 0))) = 6"
proof -
  have two: "(\<forall>i<2. \<exists>l e. fails_twice i = (l, Inl e) \<and> retryable e) \<and>
      fails_twice 2 = (0, Inr 42)"
    by (simp add: fails_twice_def retryable_bad_gateway)
  have seven: "(\<forall>i<7. \<exists>l e. fails_seven_times i = (l, Inl e) \<and> retryable e) \<and>
      fails_seven_times 7 = (0, Inr 42)"
    by (simp add: fails_seven_times_def retryable_bad_gateway)
  have five: "fails_seven_times MAX_RETRIES = (0, Inl bad_gateway)"
    by (simp add: fails_seven_times_def MAX_RETRIES_def)
  from two
    retry_fails_k_times_then_succeeds[of fails_twice MAX_RETRIES INITIAL_BACKOFF_DELAY 0 2 0 42]
  have a: "fst (withExponentialBackoff (scripted fails_twice) MAX_RETRIES INITIAL_BACKOFF_DELAY
          (mock_start 0)) = Inr (Some 42) \<and>
   calls (snd (withExponentialBackoff (scripted fails_twice) MAX_RETRIES INITIAL_BACKOFF_DELAY
          (mock_start 0))) = 3"
    by (simp add: MAX_RETRIES_def)
  from seven five
    retry_fails_k_times_then_succeeds[of fails_seven_times MAX_RETRIES INITIAL_BACKOFF_DELAY 0 7 0 42]
  have b: "fst (withExponentialBackoff (scripted fails_seven_times) MAX_RETRIES INITIAL_BACKOFF_DELAY
          (mock_start 0)) = Inl bad_gateway \<and>
   calls (snd (withExponentialBackoff (scripted fails_seven_times) MAX_RETRIES
          INITIAL_BACKOFF_DELAY (mock_start 0))) = 6"
    by (simp add: MAX_RETRIES_def)
  from a b show ?thesis by simp
qed

subsection \<open>Waiting for a rate limit to reset\<close>

lemma timeout_after_pos: "0 < timeout_after ms"
  by (simp add: timeout_after_def TIMEOUT_MAX_def)

lemma delay_fields [simp]:
  "now (delay ms w) = now w + timeout_after ms"
  "waits (delay ms w) = waits w @ [ms]"
  "call_times (delay ms w) = call_times w"
  by (simp_all add: delay_def)

lemma loop_appends:
  "retries \<le> maxRetries \<Longrightarrow>
   \<exists>xs ys. call_times (snd (withExponentialBackoff_loop (scripted resp) maxRetries d retries w))
              = call_times w @ now w # xs \<and>
           list_all (\<lambda>x. now w \<le> x) xs \<and>
           waits (snd (withExponentialBackoff_loop (scripted resp) maxRetries d retries w))
              = waits w @ ys"
proof (induction "maxRetries - retries" arbitrary: retries w)
  case 0
  then have eq: "retries = maxRetries" by simp
  obtain lat r where resp: "resp (calls w) = (lat, r)" by (cases "resp (calls w)")
  note sc = scripted_Inr[of resp w, OF resp]
  show ?case
  proof (cases r)
    case (Inr v)
    with sc eq show ?thesis by (simp add: loop_returns)
  next
    case (Inl e)
    show ?thesis
    proof (cases "backoff_wait e d retries (now w + int lat)")
      case None
      with sc Inl eq show ?thesis by (simp add: loop_throws)
    next
      case (Some ms)
      with sc Inl eq show ?thesis by (simp add: loop_gives_up)
    qed
  qed
next
  case (Suc n)
  then have lt: "retries < maxRetries" by simp
  obtain lat r where resp: "resp (calls w) = (lat, r)" by (cases "resp (calls w)")
  note sc = scripted_Inr[of resp w, OF resp]
  show ?case
  proof (cases r)
    case (Inr v)
    with sc lt show ?thesis by (simp add: loop_returns)
  next
    case (Inl e)
    show ?thesis
    proof (cases "backoff_wait e d retries (now w + int lat)")
      case None
      with sc Inl lt show ?thesis by (simp add: loop_throws)
    next
      case (Some ms)
      let ?w2 = "delay ms (w\<lparr>calls := calls w + 1, call_times := call_times w @ [now w],
                now := now w + int lat\<rparr>)"
      let ?R = "snd (withExponentialBackoff_loop (scripted resp) maxRetries d (Suc retries) ?w2)"
      have n: "n = maxRetries - Suc retries" using Suc.hyps(2) by simp
      have le: "Suc retries \<le> maxRetries" using lt by simp
      from Suc.hyps(1)[OF n le, of ?w2] obtain xs ys where
        ih: "call_times ?R = call_times ?w2 @ now ?w2 # xs"
            "list_all (\<lambda>x. now ?w2 \<le> x) xs" "waits ?R = waits ?w2 @ ys"
        by blast
      have eq: "withExponentialBackoff_loop (scripted resp) maxRetries d retries w =
          withExponentialBackoff_loop (scripted resp) maxRetries d (Suc retries) ?w2"
        using sc Inl Some lt by (simp add: loop_retries)
      have mono: "now w \<le> now ?w2"
        using timeout_after_pos[of ms] by simp
      have "list_all (\<lambda>x. now w \<le> x) (now ?w2 # xs)"
        using ih(2) mono by (auto simp: list_all_iff)
      with ih(1,3) show ?thesis
        unfolding eq by simp
    qed
  qed
qed

lemma backoff_wait_reset:
  "ratelimit_reset e = Some resetTime \<Longrightarrow>
   backoff_wait e d retries t =
     Some (if resetTime * 1000 - t + 1000 > 0 then resetTime * 1000 - t + 1000 else 60000)"
  by (simp add: backoff_wait_def Let_def)

lemma loop_rate_limit:
  assumes "length (call_times w) = calls w" and "length (waits w) = calls w"
    and "\<forall>i. calls w \<le> i \<and> i < calls w + j \<longrightarrow> (\<exists>l e. resp i = (l, Inl e) \<and> retryable e)"
    and "resp (calls w + j) = (lat, Inl e)" and "ratelimit_reset e = Some resetTime"
    and "retries + j \<le> maxRetries"
    and "R = snd (withExponentialBackoff_loop (scripted resp) maxRetries d retries w)"
    and "failed_at = call_times R ! (calls w + j) + int lat"
    and "wait = (if resetTime * 1000 - failed_at + 1000 > 0
                 then resetTime * 1000 - failed_at + 1000 else 60000)"
  shows "calls w + j < length (call_times R) \<and> waits R ! (calls w + j) = wait \<and>
     (\<forall>m. calls w + j < m \<and> m < length (call_times R) \<longrightarrow>
          failed_at + timeout_after wait \<le> call_times R ! m) \<and>
     (retries + j < maxRetries \<longrightarrow>
        Suc (calls w + j) < length (call_times R) \<and>
        call_times R ! Suc (calls w + j) = failed_at + timeout_after wait)"
  using assms
proof (induction j arbitrary: retries w)
  case 0
  let ?n = "calls w"
  from "0.prems"(4) have resp: "resp (calls w) = (lat, Inl e)" by simp
  note sc = scripted_Inr[of resp w, OF resp]
  let ?w1 = "w\<lparr>calls := calls w + 1, call_times := call_times w @ [now w],
                now := now w + int lat\<rparr>"
  let ?ms = "if resetTime * 1000 - (now w + int lat) + 1000 > 0
             then resetTime * 1000 - (now w + int lat) + 1000 else 60000"
  have bw: "backoff_wait e d retries (now ?w1) = Some ?ms"
    using backoff_wait_reset[OF "0.prems"(5)] by simp
  let ?w2 = "delay ?ms ?w1"
  have now2: "now ?w2 = now w + int lat + timeout_after ?ms" by simp
  show ?case
  proof (cases "retries = maxRetries")
    case True
    have "withExponentialBackoff_loop (scripted resp) maxRetries d retries w = (Inl e, ?w2)"
      using sc bw True by (intro loop_gives_up) simp_all
    then have R: "R = ?w2" using "0.prems"(7) by simp
    have ct: "call_times R = call_times w @ [now w]" and wr: "waits R = waits w @ [?ms]"
      unfolding R by simp_all
    have f: "failed_at = now w + int lat"
      using "0.prems"(8) ct "0.prems"(1) by (simp add: nth_append)
    have wq: "wait = ?ms" using "0.prems"(9) f by simp
    show ?thesis
      using ct wr wq True "0.prems"(1,2) by (simp add: nth_append)
  next
    case False
    with "0.prems"(6) have lt: "retries < maxRetries" by simp
    have eq: "withExponentialBackoff_loop (scripted resp) maxRetries d retries w =
          withExponentialBackoff_loop (scripted resp) maxRetries d (Suc retries) ?w2"
      using sc bw lt by (intro loop_retries) simp_all
    from lt have "Suc retries \<le> maxRetries" by simp
    from loop_appends[OF this, of resp d ?w2] eq "0.prems"(7) obtain xs ys where
      ct0: "call_times R = call_times ?w2 @ now ?w2 # xs"
      and ge: "list_all (\<lambda>x. now ?w2 \<le> x) xs" and wr0: "waits R = waits ?w2 @ ys"
      by auto
    have ct: "call_times R = call_times w @ now w # now ?w2 # xs"
      and wr: "waits R = waits w @ ?ms # ys"
      using ct0 wr0 by simp_all
    have f: "failed_at = now w + int lat"
      using "0.prems"(8) ct "0.prems"(1) by (simp add: nth_append)
    have wq: "wait = ?ms" using "0.prems"(9) f by simp
    have later: "failed_at + timeout_after wait \<le> call_times R ! m"
      if "calls w < m" "m < length (call_times R)" for m
    proof -
      from that "0.prems"(1) obtain k where m: "m = length (call_times w) + Suc k"
        by (metis add_Suc_right less_imp_Suc_add)
      with that(2) ct have k: "k < Suc (length xs)" by simp
      have "call_times R ! m = (now ?w2 # xs) ! k" using ct m by (simp add: nth_append)
      moreover have "now ?w2 \<le> (now ?w2 # xs) ! k"
        using ge k by (cases k) (auto simp: list_all_length)
      ultimately show ?thesis using now2 f wq by simp
    qed
    have nxt: "call_times R ! Suc (calls w) = failed_at + timeout_after wait"
      using ct "0.prems"(1) now2 f wq by (simp add: nth_append)
    show ?thesis
      using ct wr wq "0.prems"(1,2) later nxt by (simp add: nth_append)
  qed
next
  case (Suc j)
  have "calls w \<le> calls w \<and> calls w < calls w + Suc j" by simp
  with Suc.prems(3) obtain l e' where resp: "resp (calls w) = (l, Inl e')" and re: "retryable e'"
    by blast
  from re obtain ms where ms: "backoff_wait e' d retries (now w + int l) = Some ms"
    using backoff_wait_retryable by fastforce
  let ?w2 = "delay ms (w\<lparr>calls := calls w + 1, call_times := call_times w @ [now w],
                now := now w + int l\<rparr>)"
  have c2: "calls ?w2 = Suc (calls w)" by simp
  from Suc.prems(6) have lt: "retries < maxRetries" by simp
  have eq: "withExponentialBackoff_loop (scripted resp) maxRetries d retries w =
          withExponentialBackoff_loop (scripted resp) maxRetries d (Suc retries) ?w2"
    using scripted_Inr[of resp w, OF resp] ms lt by (simp add: loop_retries)
  have a1: "length (call_times ?w2) = calls ?w2" using Suc.prems(1) by simp
  have a2: "length (waits ?w2) = calls ?w2" using Suc.prems(2) by simp
  have a3: "\<forall>i. calls ?w2 \<le> i \<and> i < calls ?w2 + j \<longrightarrow> (\<exists>l e. resp i = (l, Inl e) \<and> retryable e)"
    using Suc.prems(3) by (simp add: c2)
  have a4: "resp (calls ?w2 + j) = (lat, Inl e)" using Suc.prems(4) by (simp add: c2)
  have a6: "Suc retries + j \<le> maxRetries" using Suc.prems(6) by simp
  have a7: "R = snd (withExponentialBackoff_loop (scripted resp) maxRetries d (Suc retries) ?w2)"
    using Suc.prems(7) eq by simp
  have a8: "failed_at = call_times R ! (calls ?w2 + j) + int lat"
    using Suc.prems(8) by (simp add: c2)
  from Suc.IH[OF a1 a2 a3 a4 Suc.prems(5) a6 a7 a8 Suc.prems(9)]
  show ?case by (simp add: c2)
qed

lemmas run_mock =
  withExponentialBackoff_def withExponentialBackoff_loop.simps scripted_def mock_start_def
  backoff_wait_def delay_def timeout_after_def TIMEOUT_MAX_def Let_def MAX_RETRIES_def
  INITIAL_BACKOFF_DELAY_def

text \<open>
  Claim C4 as the spec words it, wait = max(resetTime - now, 0) + 1000 ms, fails when the
  reset time is already past. With the clock at 12000 ms and a reset time of 10 s the
  formula gives 1000 ms; the wrapper waits 60000 ms and invokes the operation again at
  72000 ms.
\<close>

theorem rate_limit_wait_counterexample:
  "waits (snd (withExponentialBackoff (scripted (limited_once 10)) MAX_RETRIES
      INITIAL_BACKOFF_DELAY (mock_start 12000))) = [60000] \<and>
   call_times (snd (withExponentialBackoff (scripted (limited_once 10)) MAX_RETRIES
      INITIAL_BACKOFF_DELAY (mock_start 12000))) = [12000, 72000] \<and>
   max (10 * 1000 - 12000) 0 + 1000 = (1000 :: int)"
  by (simp add: run_mock limited_once_def rate_limited_def)

text \<open>
  Claim C4, amended. Let the operation throw retryable errors at its first \<open>n\<close>
  invocations and, at invocation \<open>n \<le> maxRetries\<close>, an error whose \<open>x-ratelimit-reset\<close>
  header is \<open>resetTime\<close> seconds; let \<open>failed_at\<close> be the clock when that invocation
  fails. The wrapper then calls \<open>delay\<close> with
  \<open>resetTime * 1000 - failed_at + 1000\<close> ms when this is positive and with 60000 ms
  otherwise; when the reset time is not past this is \<open>max (reset - now) 0 + 1000\<close>. When a
  retry is left the operation is invoked again. When the wait is at most \<open>TIMEOUT_MAX\<close>
  ms, the longest delay a timer takes, no invocation of the operation starts before
  \<open>failed_at + wait\<close>, and when a retry is left the next invocation starts exactly then.
\<close>

theorem rate_limit_wait:
  assumes "\<forall>i<n. \<exists>l e. resp i = (l, Inl e) \<and> retryable e"
    and "resp n = (lat, Inl e)" and "ratelimit_reset e = Some resetTime"
    and "n \<le> maxRetries"
    and "R = snd (withExponentialBackoff (scripted resp) maxRetries d (mock_start t0))"
    and "failed_at = call_times R ! n + int lat"
    and "wait = (if resetTime * 1000 - failed_at + 1000 > 0
                 then resetTime * 1000 - failed_at + 1000 else 60000)"
  shows "n < length (call_times R) \<and> waits R ! n = wait \<and>
     (failed_at \<le> resetTime * 1000 \<longrightarrow> wait = max (resetTime * 1000 - failed_at) 0 + 1000) \<and>
     (n < maxRetries \<longrightarrow> Suc n < length (call_times R)) \<and>
     (wait \<le> TIMEOUT_MAX \<longrightarrow>
        (\<forall>m. n < m \<and> m < length (call_times R) \<longrightarrow> failed_at + wait \<le> call_times R ! m) \<and>
        (n < maxRetries \<longrightarrow> call_times R ! Suc n = failed_at + wait))"
proof -
  let ?w = "mock_start t0"
  have c0: "calls ?w = 0" by (simp add: mock_start_def)
  have a1: "length (call_times ?w) = calls ?w" and a2: "length (waits ?w) = calls ?w"
    by (simp_all add: mock_start_def)
  have a3: "\<forall>i. calls ?w \<le> i \<and> i < calls ?w + n \<longrightarrow> (\<exists>l e. resp i = (l, Inl e) \<and> retryable e)"
    using assms(1) by (simp add: c0)
  have a4: "resp (calls ?w + n) = (lat, Inl e)" using assms(2) by (simp add: c0)
  have a6: "0 + n \<le> maxRetries" using assms(4) by simp
  have a7: "R = snd (withExponentialBackoff_loop (scripted resp) maxRetries d 0 ?w)"
    using assms(5) by (simp add: withExponentialBackoff_def)
  have a8: "failed_at = call_times R ! (calls ?w + n) + int lat" using assms(6) by (simp add: c0)
  from loop_rate_limit[OF a1 a2 a3 a4 assms(3) a6 a7 a8 assms(7)]
  have main: "n < length (call_times R) \<and> waits R ! n = wait \<and>
     (\<forall>m. n < m \<and> m < length (call_times R) \<longrightarrow>
          failed_at + timeout_after wait \<le> call_times R ! m) \<and>
     (n < maxRetries \<longrightarrow>
        Suc n < length (call_times R) \<and>
        call_times R ! Suc n = failed_at + timeout_after wait)"
    by (simp add: c0)
  have pos: "1 \<le> wait" using assms(7) by simp
  have exact: "timeout_after wait = wait" if "wait \<le> TIMEOUT_MAX"
    using that pos by (simp add: timeout_after_def)
  have "wait = max (resetTime * 1000 - failed_at) 0 + 1000" if "failed_at \<le> resetTime * 1000"
    using that assms(7) by simp
  with main exact show ?thesis by metis
qed

text \<open>The spec's example: the reset time is 5000 ms after the failure, so the wait is
  6000 ms and the second invocation starts 6000 ms after the first failed.\<close>

theorem rate_limit_wait_witness:
  "waits (snd (withExponentialBackoff (scripted (limited_once 5)) MAX_RETRIES
      INITIAL_BACKOFF_DELAY (mock_start 0))) ! 0 = 6000 \<and>
   call_times (snd (withExponentialBackoff (scripted (limited_once 5)) MAX_RETRIES
      INITIAL_BACKOFF_DELAY (mock_start 0))) ! Suc 0 = 6000"
proof -
  let ?R = "snd (withExponentialBackoff (scripted (limited_once 5)) MAX_RETRIES
      INITIAL_BACKOFF_DELAY (mock_start 0))"
  have first: "call_times ?R ! 0 = 0"
    by (simp add: run_mock limited_once_def rate_limited_def)
  have h1: "\<forall>i<0. \<exists>l e. limited_once 5 i = (l, Inl e) \<and> retryable e" by simp
  have h2: "limited_once 5 0 = (0, Inl (rate_limited 5))" by (simp add: limited_once_def)
  have h3: "ratelimit_reset (rate_limited 5) = Some 5" by (simp add: rate_limited_def)
  have h4: "0 \<le> MAX_RETRIES" by simp
  have h5: "0 < MAX_RETRIES" by (simp add: MAX_RETRIES_def)
  have h6: "(6000 :: int) \<le> TIMEOUT_MAX" by (simp add: TIMEOUT_MAX_def)
  from rate_limit_wait[OF h1 h2 h3 h4 refl refl refl, of INITIAL_BACKOFF_DELAY 0] h5 h6
  show ?thesis
    by (simp add: first)
qed

text \<open>A wait longer than \<open>TIMEOUT_MAX\<close> ms is not one a timer takes: with a reset time
  3000000 s away \<open>delay\<close> is called with 3000001000 ms, and the operation is invoked again
  after 1 ms.\<close>

lemma distant_reset_wait:
  "waits (snd (withExponentialBackoff (scripted (limited_once 3000000)) MAX_RETRIES
      INITIAL_BACKOFF_DELAY (mock_start 0))) = [3000001000] \<and>
   call_times (snd (withExponentialBackoff (scripted (limited_once 3000000)) MAX_RETRIES
      INITIAL_BACKOFF_DELAY (mock_start 0))) = [0, 1]"
  by (simp add: run_mock limited_once_def rate_limited_def)

section \<open>Properties of processing one repository\<close>

lemmas run_item =
  processRepository_def withExponentialBackoff_def withExponentialBackoff_loop.simps
  getBranchProtection_def simulateRemovingChecks_def removeChecksFromBranchProtection_def
  apply_changes_def filtered_status_checks_def on_error_def on_unprotected_def
  sanitizeErrorForLogging_def
  backoff_wait_def delay_def timeout_after_def TIMEOUT_MAX_def item_start_def push_def
  pushed_def log_error_def
  branch_of_def SPECIFIC_BRANCH_def DRY_RUN_def CUSTOM_CHECKS_def default_checks_def
  checks_or_default_def property_def getEnforceAdmins_def getRestrictions_def
  MAX_RETRIES_def INITIAL_BACKOFF_DELAY_def THROTTLE_DELAY_def Let_def

lemmas samples =
  sample_repo_def http_error_def requiring_def always_def failing_once_def options_def

subsection \<open>A lookup that is refused\<close>

text \<open>
  Claim C8 as the spec words it fails: a lookup rejected with status 403 does not end in an
  \<open>error\<close> element. The repository is reported as \<open>skipped\<close>, and \<open>processRepository\<close>
  returns \<open>true\<close>.
\<close>

theorem lookup_forbidden_counterexample:
  "processRepository (options False (Some [''ci'']) 5)
     (always (Inl (http_error 403 ''Upgrade to GitHub Pro to enable this feature.'')))
     (sample_repo ''service'') 0 1 (item_start 0 True) =
   (True,
    \<lparr>now = 1000, waits = [1000], gets = 1, puts = 0, requests = [GetBranchProtection],
     logged = [],
     reportData = Some [\<lparr>repository = ''service'', branch = ''main'', status = ''skipped'',
       reason = Some ''No branch protection found'', dryRun = None,
       changes = Some (JStrings []), checksRemaining = None, error = None\<rparr>]\<rparr>)"
  by (simp add: run_item samples)

text \<open>
  Claim C8, amended. When the lookup of a repository's branch protection is rejected with
  status 403, the lookup is not repeated and no other request is sent; the repository is
  reported as \<open>skipped\<close> with the reason \<open>No branch protection found\<close>, in both modes, and
  counts as successful.
\<close>

theorem lookup_forbidden_is_skipped:
  assumes "getBranchProtection_response a 0 = (lat, Inl e)" and "err_status e = Some 403"
  shows "processRepository cfg a r index total_count (item_start t True) =
    (True,
     \<lparr>now = t + 1000 + int lat, waits = [1000], gets = 1, puts = 0,
      requests = [GetBranchProtection], logged = [],
      reportData = Some [\<lparr>repository = name r, branch = branch_of cfg r, status = ''skipped'',
        reason = Some ''No branch protection found'', dryRun = None,
        changes = Some (JStrings []), checksRemaining = None, error = None\<rparr>]\<rparr>)"
proof -
  let ?w0 = "delay THROTTLE_DELAY (item_start t True)"
  let ?w1 = "?w0\<lparr>gets := 1, requests := [GetBranchProtection], now := now ?w0 + int lat\<rparr>"
  have g: "getBranchProtection a ?w0 = (Inr None, ?w1)"
    using assms by (simp add: getBranchProtection_def item_start_def delay_def Let_def)
  have "withExponentialBackoff (getBranchProtection a) MAX_RETRIES INITIAL_BACKOFF_DELAY ?w0
      = (Inr (Some None), ?w1)"
    unfolding withExponentialBackoff_def
    by (rule loop_returns[where fn = "getBranchProtection a" and w = ?w0, OF _ g]) simp
  then show ?thesis
    by (simp add: processRepository_def on_unprotected_def push_def item_start_def delay_def
        timeout_after_def TIMEOUT_MAX_def THROTTLE_DELAY_def)
qed

theorem lookup_forbidden_is_skipped_witness:
  "fst (processRepository (options True None 5)
     (always (Inl (http_error 403 ''Resource not accessible by personal access token'')))
     (sample_repo ''service'') 0 1 (item_start 0 True)) = True \<and>
   map status (pushed (snd (processRepository (options True None 5)
     (always (Inl (http_error 403 ''Resource not accessible by personal access token'')))
     (sample_repo ''service'') 0 1 (item_start 0 True)))) = [''skipped'']"
proof -
  have h1: "getBranchProtection_response
      (always (Inl (http_error 403 ''Resource not accessible by personal access token''))) 0
      = (0, Inl (http_error 403 ''Resource not accessible by personal access token''))"
    by (simp add: always_def)
  have h2: "err_status (http_error 403 ''Resource not accessible by personal access token'')
      = Some 403"
    by (simp add: http_error_def)
  show ?thesis
    by (simp add: lookup_forbidden_is_skipped[OF h1 h2] pushed_def)
qed

subsection \<open>Dry runs\<close>

text \<open>
  Claim C9 does not hold of the code. With \<open>--dry-run --checks ci\<close> and a branch that
  requires the checks \<open>ci\<close> and \<open>build\<close>, the object that \<open>simulateRemovingChecks\<close> returns has
  the properties \<open>message\<close>, \<open>original\<close> and \<open>simulated\<close> only, so the \<open>simulated\<close> element of
  the report gets \<open>undefined\<close> for \<open>changes\<close> and for \<open>checksRemaining\<close>, where the claim wants
  the list holding \<open>ci\<close>.
\<close>

theorem simulated_changes_are_undefined:
  "map fst (case fst (simulateRemovingChecks (always (Inr (requiring [''ci'', ''build''])))
       (Checks [''ci'']) (item_start 0 True)) of Inr obj \<Rightarrow> obj | Inl e \<Rightarrow> [])
     = [''message'', ''original'', ''simulated''] \<and>
   pushed (snd (processRepository (options True (Some [''ci'']) 5)
       (always (Inr (requiring [''ci'', ''build'']))) (sample_repo ''service'') 0 1
       (item_start 0 True))) =
     [\<lparr>repository = ''service'', branch = ''main'', status = ''simulated'', reason = None,
       dryRun = Some True, changes = None, checksRemaining = None, error = None\<rparr>]"
  by (simp add: run_item samples)

text \<open>
  Claim C6 does not hold of the code either. In a dry run without \<open>--checks\<close>,
  \<open>processRepository\<close> passes \<open>checksToRemove: null\<close>; the default value \<open>[]\<close> of the parameter
  does not replace \<open>null\<close>, and \<open>simulateRemovingChecks\<close> throws a \<open>TypeError\<close> at
  \<open>checksToRemove.length\<close> as soon as the branch requires a status check. The repository,
  whose protection exists, is reported with status \<open>error\<close>, not \<open>simulated\<close>. (No update
  request is sent.)
\<close>

theorem dry_run_default_checks_is_error:
  "fst (processRepository (options True None 5) (always (Inr (requiring [''ci''])))
       (sample_repo ''service'') 0 1 (item_start 0 True)) = False \<and>
   map status (pushed (snd (processRepository (options True None 5)
       (always (Inr (requiring [''ci'']))) (sample_repo ''service'') 0 1
       (item_start 0 True)))) = [''error''] \<and>
   requests (snd (processRepository (options True None 5)
       (always (Inr (requiring [''ci'']))) (sample_repo ''service'') 0 1
       (item_start 0 True))) = [GetBranchProtection, GetBranchProtection]"
  by (simp add: run_item samples)

subsection \<open>Removing every required check\<close>

lemma filter_all_removed:
  "\<forall>c\<in>set cs. check_context c \<in> set xs \<Longrightarrow> filter (\<lambda>c. check_context c \<notin> set xs) cs = []"
  by (induction cs) auto

text \<open>
  Where the branch requires at least one status check and every required check is in
  the removal set (the list the caller passes or, when that list is empty, the two
  Khulnasoft checks), both paths give \<open>null\<close>: the settings that \<open>simulateRemovingChecks\<close>
  returns as \<open>simulated\<close> have \<open>required_status_checks\<close> \<open>null\<close>, the update request that
  \<open>removeChecksFromBranchProtection\<close> sends has \<open>required_status_checks\<close> \<open>null\<close>, and for
  the Khulnasoft checks \<open>removeKhulnasoftChecks\<close> returns \<open>null\<close>.
\<close>

lemma all_checks_removed_gives_null:
  assumes "getBranchProtection_response a (gets w) = (lat, Inr p)"
    and "required_status_checks p = Some sc" and "checks sc = Some cs" and "cs \<noteq> []"
    and "\<forall>c\<in>set cs. check_context c \<in> set (checks_or_default ctr)"
  shows "(\<exists>msg w'. simulateRemovingChecks a (Checks ctr) w =
            (Inr [(''message'', msg), (''original'', JProtection p),
                  (''simulated'', JProtection (p\<lparr>required_status_checks := None\<rparr>))], w')) \<and>
         (\<exists>req. requests (snd (removeChecksFromBranchProtection a (Checks ctr) w)) =
            requests w @ [GetBranchProtection, UpdateBranchProtection req] \<and>
            req_required_status_checks req = None) \<and>
         checks_or_default [] = [POLICY, INSIGHTS] \<and>
         (ctr = [] \<longrightarrow> removeKhulnasoftChecks p = None)"
proof (intro conjI impI)
  note none = filter_all_removed[OF assms(5)]
  show "\<exists>msg w'. simulateRemovingChecks a (Checks ctr) w =
            (Inr [(''message'', msg), (''original'', JProtection p),
                  (''simulated'', JProtection (p\<lparr>required_status_checks := None\<rparr>))], w')"
    using assms(1-4) none
    by (simp add: simulateRemovingChecks_def getBranchProtection_def default_checks_def Let_def)
  have f: "filtered_status_checks p (Checks ctr) = Inr None"
    using assms(2-4) none by (simp add: filtered_status_checks_def default_checks_def Let_def)
  obtain lat2 r2 where u: "updateBranchProtection_response a (puts w) = (lat2, r2)"
    by (cases "updateBranchProtection_response a (puts w)")
  show "\<exists>req. requests (snd (removeChecksFromBranchProtection a (Checks ctr) w)) =
            requests w @ [GetBranchProtection, UpdateBranchProtection req] \<and>
            req_required_status_checks req = None"
    using assms(1) f u
    by (cases r2)
       (simp_all add: removeChecksFromBranchProtection_def getBranchProtection_def
          default_checks_def log_error_def Let_def)
  show "checks_or_default [] = [POLICY, INSIGHTS]"
    by (simp add: checks_or_default_def)
  assume "ctr = []"
  with assms(5) have "\<forall>c\<in>set cs. check_context c \<in> set [POLICY, INSIGHTS]"
    by (simp add: checks_or_default_def)
  from filter_all_removed[OF this] assms(2,3) show "removeKhulnasoftChecks p = None"
    by (simp add: removeKhulnasoftChecks_def Let_def)
qed

text \<open>
  Claim C10 does not hold of the code. Take a branch whose protection requires status
  checks with an empty list of checks, so that every required check is in the removal
  set. \<open>removeChecksFromBranchProtection\<close> sends an update with \<open>required_status_checks\<close>
  \<open>null\<close>, as the claim says. \<open>simulateRemovingChecks\<close>, its sibling for dry runs, returns
  early (\<open>No status checks found to remove\<close>) with the settings unchanged: its \<open>simulated\<close>
  configuration keeps the empty list of checks, so that the dry run does not show what
  applying does.
\<close>

theorem simulate_keeps_empty_check_list:
  "property (case fst (simulateRemovingChecks (always (Inr (requiring []))) (Checks [])
       (item_start 0 True)) of Inr obj \<Rightarrow> obj | Inl e \<Rightarrow> []) ''simulated''
     = Some (JProtection (requiring [])) \<and>
   required_status_checks (requiring [])
     = Some \<lparr>strict = True, contexts = [], checks = Some []\<rparr> \<and>
   requests (snd (removeChecksFromBranchProtection (always (Inr (requiring []))) (Checks [])
       (item_start 0 True)))
     = [GetBranchProtection,
        UpdateBranchProtection
          \<lparr>req_enforce_admins = Some True, req_required_status_checks = None,
           req_required_pull_request_reviews = None, req_restrictions = None,
           req_allow_force_pushes = False, req_allow_deletions = False\<rparr>]"
  by (simp add: run_item samples)

subsection \<open>One element of the report for each repository\<close>

lemma loop_falls_through:
  "\<not> retries \<le> maxRetries \<Longrightarrow> withExponentialBackoff_loop fn maxRetries d retries w = (Inr None, w)"
  by (subst withExponentialBackoff_loop.simps) simp

lemma loop_rule:
  assumes "I w" and "retries \<le> maxRetries"
    and fail: "\<And>w e w1. I w \<Longrightarrow> fn w = (Inl e, w1) \<Longrightarrow> I w1"
    and wait: "\<And>w ms. I w \<Longrightarrow> I (delay ms w)"
    and ok: "\<And>w v w1. I w \<Longrightarrow> fn w = (Inr v, w1) \<Longrightarrow> S v w1"
  shows "case withExponentialBackoff_loop fn maxRetries d retries w of
           (Inl e, w') \<Rightarrow> I w'
         | (Inr None, w') \<Rightarrow> False
         | (Inr (Some v), w') \<Rightarrow> S v w'"
  using assms(1,2)
proof (induction "maxRetries - retries" arbitrary: retries w)
  case 0
  then have eq: "retries = maxRetries" by simp
  obtain r w1 where f: "fn w = (r, w1)" by (cases "fn w")
  show ?case
  proof (cases r)
    case (Inr v)
    with f eq ok[OF "0.prems"(1)] show ?thesis by (simp add: loop_returns)
  next
    case (Inl e)
    show ?thesis
    proof (cases "backoff_wait e d retries (now w1)")
      case None
      with f Inl eq fail[OF "0.prems"(1)] show ?thesis by (simp add: loop_throws)
    next
      case (Some ms)
      with f Inl eq wait[OF fail[OF "0.prems"(1)]] show ?thesis by (simp add: loop_gives_up)
    qed
  qed
next
  case (Suc n)
  then have lt: "retries < maxRetries" by simp
  obtain r w1 where f: "fn w = (r, w1)" by (cases "fn w")
  show ?case
  proof (cases r)
    case (Inr v)
    with f lt ok[OF Suc.prems(1)] show ?thesis by (simp add: loop_returns)
  next
    case (Inl e)
    show ?thesis
    proof (cases "backoff_wait e d retries (now w1)")
      case None
      with f Inl lt fail[OF Suc.prems(1)] show ?thesis by (simp add: loop_throws)
    next
      case (Some ms)
      have n: "n = maxRetries - Suc retries" using Suc.hyps(2) by simp
      have le: "Suc retries \<le> maxRetries" using lt by simp
      have i2: "I (delay ms w1)" using wait fail Suc.prems(1) f Inl by blast
      have eq: "withExponentialBackoff_loop fn maxRetries d retries w =
          withExponentialBackoff_loop fn maxRetries d (Suc retries) (delay ms w1)"
        using f Inl Some lt by (simp add: loop_retries)
      show ?thesis unfolding eq by (rule Suc.hyps(1)[OF n i2 le])
    qed
  qed
qed

lemma reportData_delay [simp]: "reportData (delay ms w) = reportData w"
  by (simp add: delay_def)

lemma reportData_log_error [simp]: "reportData (log_error e w) = reportData w"
  by (simp add: log_error_def)

lemma reportData_getBranchProtection:
  "getBranchProtection a w = (r, w1) \<Longrightarrow> reportData w1 = reportData w"
  by (auto simp: getBranchProtection_def Let_def split: prod.splits sum.splits if_splits)

lemma reportData_simulateRemovingChecks:
  assumes "simulateRemovingChecks a c w = (r, w1)"
  shows "reportData w1 = reportData w"
proof -
  obtain r0 w0 where g: "getBranchProtection a w = (r0, w0)"
    by (cases "getBranchProtection a w")
  have w0: "reportData w0 = reportData w" by (rule reportData_getBranchProtection[OF g])
  from assms g w0 show ?thesis
    by (auto simp: simulateRemovingChecks_def Let_def split: sum.splits option.splits if_splits)
qed

lemma reportData_removeChecksFromBranchProtection:
  assumes "removeChecksFromBranchProtection a c w = (r, w1)"
  shows "reportData w1 = reportData w"
proof -
  obtain r0 w0 where g: "getBranchProtection a w = (r0, w0)"
    by (cases "getBranchProtection a w")
  have w0: "reportData w0 = reportData w" by (rule reportData_getBranchProtection[OF g])
  from assms g w0 show ?thesis
    by (auto simp: removeChecksFromBranchProtection_def Let_def
        split: sum.splits option.splits if_splits prod.splits)
qed

lemma on_error_pushed:
  "reportData w = Some xs \<Longrightarrow>
   \<exists>x. fst (on_error cfg r e w) = False \<and>
       pushed (snd (on_error cfg r e w)) = xs @ [x] \<and> repository x = name r \<and>
       status x = ''error''"
  by (simp add: on_error_def sanitizeErrorForLogging_def push_def pushed_def Let_def)

lemma on_unprotected_pushed:
  "reportData w = Some xs \<Longrightarrow>
   \<exists>x. fst (on_unprotected cfg r w) = True \<and>
       pushed (snd (on_unprotected cfg r w)) = xs @ [x] \<and> repository x = name r \<and>
       status x = ''skipped''"
  by (simp add: on_unprotected_def push_def pushed_def)

lemma apply_changes_throws:
  assumes "apply_changes cfg a r c w = (Inl e, w1)"
  shows "reportData w1 = reportData w"
proof -
  obtain r0 w0 where g: "removeChecksFromBranchProtection a c w = (r0, w0)"
    by (cases "removeChecksFromBranchProtection a c w")
  from reportData_removeChecksFromBranchProtection[OF g] assms g show ?thesis
    by (auto simp: apply_changes_def split: sum.splits)
qed

lemma apply_changes_returns:
  assumes "apply_changes cfg a r c w = (Inr v, w1)" and "reportData w = Some xs"
  shows "\<exists>x. reportData w1 = Some (xs @ [x]) \<and> repository x = name r \<and> status x = ''updated''"
proof -
  obtain r0 w0 where g: "removeChecksFromBranchProtection a c w = (r0, w0)"
    by (cases "removeChecksFromBranchProtection a c w")
  from reportData_removeChecksFromBranchProtection[OF g] assms g show ?thesis
    by (auto simp: apply_changes_def push_def split: sum.splits)
qed

lemma processRepository_reports:
  "\<exists>x. pushed (snd (processRepository cfg a r i n (item_start t True))) = [x] \<and>
       repository x = name r \<and> outcome_status (status x) \<and>
       (fst (processRepository cfg a r i n (item_start t True)) \<longleftrightarrow> status x \<noteq> ''error'')"
proof -
  let ?w0 = "delay THROTTLE_DELAY (item_start t True)"
  let ?I = "\<lambda>w :: item_world. reportData w = Some []"
  have i0: "?I ?w0" by (simp add: item_start_def)
  obtain r1 w1 where s1:
    "withExponentialBackoff (getBranchProtection a) MAX_RETRIES INITIAL_BACKOFF_DELAY ?w0 = (r1, w1)"
    by (cases "withExponentialBackoff (getBranchProtection a) MAX_RETRIES INITIAL_BACKOFF_DELAY ?w0")
  have "case withExponentialBackoff_loop (getBranchProtection a) MAX_RETRIES
            INITIAL_BACKOFF_DELAY 0 ?w0 of
           (Inl e, w') \<Rightarrow> ?I w'
         | (Inr None, w') \<Rightarrow> False
         | (Inr (Some v), w') \<Rightarrow> ?I w'"
    by (rule loop_rule[where I = ?I, OF i0])
       (auto dest: reportData_getBranchProtection)
  with s1 have i1: "?I w1" and n1: "r1 \<noteq> Inr None"
    by (auto simp: withExponentialBackoff_def split: sum.splits option.splits)
  note err = on_error_pushed[where xs = "[]" and cfg = cfg and r = r, simplified]
  note unp = on_unprotected_pushed[where xs = "[]" and cfg = cfg and r = r, simplified]
  show ?thesis
  proof (cases r1)
    case (Inl e)
    with s1 err[OF i1, of e] show ?thesis
      by (auto simp: processRepository_def outcome_status_def)
  next
    case (Inr v)
    with n1 obtain found where v: "v = Some found" by (cases v) auto
    show ?thesis
    proof (cases found)
      case None
      with s1 Inr v unp[OF i1] show ?thesis
        by (auto simp: processRepository_def outcome_status_def)
    next
      case (Some p)
      let ?c = "case CUSTOM_CHECKS cfg of Some xs \<Rightarrow> Checks xs | None \<Rightarrow> Null"
      show ?thesis
      proof (cases "DRY_RUN cfg")
        case True
        obtain r2 w2 where s2: "simulateRemovingChecks a ?c w1 = (r2, w2)"
          by (cases "simulateRemovingChecks a ?c w1")
        from reportData_simulateRemovingChecks[OF s2] i1 have i2: "?I w2" by simp
        show ?thesis
        proof (cases r2)
          case (Inl e)
          with s1 Inr v Some True s2 err[OF i2, of e] show ?thesis
            by (auto simp: processRepository_def outcome_status_def)
        next
          case (Inr obj)
          with s1 \<open>r1 = Inr v\<close> v Some True s2 i2 show ?thesis
            by (simp add: processRepository_def outcome_status_def push_def pushed_def)
        qed
      next
        case False
        let ?S = "\<lambda>(v :: jsobject) w :: item_world.
          \<exists>x. reportData w = Some [x] \<and> repository x = name r \<and> status x = ''updated''"
        obtain r2 w2 where s2:
          "withExponentialBackoff (apply_changes cfg a r ?c) MAX_RETRIES INITIAL_BACKOFF_DELAY w1
             = (r2, w2)"
          by (cases "withExponentialBackoff (apply_changes cfg a r ?c) MAX_RETRIES
             INITIAL_BACKOFF_DELAY w1")
        have "case withExponentialBackoff_loop (apply_changes cfg a r ?c) MAX_RETRIES
            INITIAL_BACKOFF_DELAY 0 w1 of
           (Inl e, w') \<Rightarrow> ?I w'
         | (Inr None, w') \<Rightarrow> False
         | (Inr (Some v), w') \<Rightarrow> ?S v w'"
        proof (rule loop_rule[where I = ?I and S = ?S, OF i1])
          show "0 \<le> MAX_RETRIES" by simp
        next
          fix w e w1 assume "?I w" "apply_changes cfg a r ?c w = (Inl e, w1)"
          then show "?I w1" using apply_changes_throws by fastforce
        next
          fix w ms assume "?I w" then show "?I (delay ms w)" by simp
        next
          fix w v w1 assume "?I w" "apply_changes cfg a r ?c w = (Inr v, w1)"
          then show "?S v w1" using apply_changes_returns[where xs = "[]"] by fastforce
        qed
        with s2 have c2: "case r2 of Inl e \<Rightarrow> ?I w2 | Inr None \<Rightarrow> False | Inr (Some v) \<Rightarrow> ?S v w2"
          by (simp add: withExponentialBackoff_def)
        show ?thesis
        proof (cases r2)
          case (Inl e)
          with c2 have "?I w2" by simp
          with s1 \<open>r1 = Inr v\<close> v Some False s2 Inl err[OF this, of e] show ?thesis
            by (auto simp: processRepository_def outcome_status_def)
        next
          case (Inr res)
          with c2 obtain x where "reportData w2 = Some [x]" "repository x = name r"
            "status x = ''updated''"
            by (cases res) auto
          with s1 \<open>r1 = Inr v\<close> v Some False s2 Inr show ?thesis
            by (simp add: processRepository_def outcome_status_def pushed_def)
        qed
      qed
    qed
  qed
qed

section \<open>Properties of the redaction\<close>






























subsection \<open>What is logged and what is reported\<close>







lemma discreet_cong:
  "reportData w' = reportData w \<Longrightarrow> logged w' = logged w \<Longrightarrow> discreet t w' = discreet t w"
  by (simp add: discreet_def pushed_def)

lemma discreet_delay [simp]: "discreet t (delay ms w) = discreet t w"
  by (rule discreet_cong) (simp_all add: delay_def)














section \<open>Properties of the batch scheduler and the report\<close>

subsection \<open>The orders in which a batch may complete\<close>

lemma placements_mset:
  "cs \<in> set (placements x ys) \<Longrightarrow> mset cs = add_mset x (mset ys)"
  by (induction ys arbitrary: cs) auto

lemma arrangements_mset:
  "cs \<in> set (arrangements xs) \<Longrightarrow> mset cs = mset xs"
  by (induction xs arbitrary: cs) (auto dest: placements_mset)

lemma placements_middle: "as @ x # bs \<in> set (placements x (as @ bs))"
  by (induction as) (cases bs, auto)

lemma arrangements_complete:
  "mset cs = mset xs \<Longrightarrow> cs \<in> set (arrangements xs)"
proof (induction xs arbitrary: cs)
  case Nil
  then show ?case by simp
next
  case (Cons x xs)
  then have "x \<in> set cs" by (metis list.set_intros(1) mset_eq_setD)
  then obtain as bs where cs: "cs = as @ x # bs" by (meson split_list)
  with Cons.prems have "mset (as @ bs) = mset xs" by simp
  then have "as @ bs \<in> set (arrangements xs)" by (rule Cons.IH)
  with cs placements_middle[of as x bs] show ?case by auto
qed

lemma completion_orders_iff:
  "cs \<in> set (completion_orders outcomes) \<longleftrightarrow>
     mset cs = mset outcomes \<and> sorted (map (\<lambda>(k, ok, w). now w) cs)"
  unfolding completion_orders_def using arrangements_mset arrangements_complete by auto

lemma completion_orders_nonempty: "completion_orders outcomes \<noteq> []"
proof -
  have "sort_key (\<lambda>(k, ok, w). now w) outcomes \<in> set (completion_orders outcomes)"
    unfolding completion_orders_iff by simp
  then show ?thesis by auto
qed

lemma promises_by_index:
  "promises cfg github repos i st =
     map (\<lambda>k. (k, processRepository cfg (github k) (repos ! k) k (length repos)
                    (item_start (clock st) (report_data st \<noteq> None))))
       [i ..< min (i + MAX_CONCURRENCY cfg) (length repos)]"
proof (cases "i < length repos")
  case False
  then show ?thesis by (simp add: promises_def)
next
  case True
  define batch where "batch = take (MAX_CONCURRENCY cfg) (drop i repos)"
  have len: "i + length batch = min (i + MAX_CONCURRENCY cfg) (length repos)"
    unfolding batch_def using True by (auto simp: min_def)
  have nth: "batch ! j = repos ! (i + j)" if "j < length batch" for j
    using that True unfolding batch_def by simp
  show ?thesis
    unfolding promises_def Let_def batch_def[symmetric] len[symmetric]
    by (rule nth_equalityI) (simp_all add: nth_enumerate_eq nth)
qed


lemma promises_calls:
  "promises cfg github repos i st =
     map (\<lambda>k. (k, call cfg github repos (report_data st \<noteq> None) k (clock st)))
       [i ..< min (i + MAX_CONCURRENCY cfg) (length repos)]"
  unfolding call_def by (rule promises_by_index)

lemma concat_map_cong:
  "(\<And>x. x \<in> set xs \<Longrightarrow> f x = g x) \<Longrightarrow> concat (map f xs) = concat (map g xs)"
  by (induction xs) simp_all

lemma settle_batch_effects:
  assumes outs: "outcomes = promises cfg github repos i st"
    and cs: "completed \<in> set (completion_orders outcomes)"
    and rep: "reporting = (report_data st \<noteq> None)"
    and st1: "st1 = settle_batch cfg repos i st outcomes completed"
  shows "\<exists>b. batches st1 = batches st @ [b] \<and>
     started b = clock st \<and>
     members b = [i ..< min (i + MAX_CONCURRENCY cfg) (length repos)] \<and>
     awaited cfg github repos reporting b \<and>
     clock st1 = (if i + MAX_CONCURRENCY cfg < length repos then settled b + 2000 else settled b) \<and>
     pauses st1 = pauses st @ (if i + MAX_CONCURRENCY cfg < length repos then [2000] else []) \<and>
     report_data st1 =
       (case report_data st of
          None \<Rightarrow> None
        | Some ds \<Rightarrow> Some (ds @ in_completion_order cfg github repos reporting (\<lambda>k. pushed) [b])) \<and>
     api_requests st1 = api_requests st @
       in_completion_order cfg github repos reporting (\<lambda>k w. map (Pair k) (requests w)) [b] \<and>
     error_log st1 = error_log st @
       in_completion_order cfg github repos reporting (\<lambda>k. logged) [b] \<and>
     updatedRepos st1 = updatedRepos st +
       length (filter (\<lambda>k. fst (call cfg github repos reporting k (started b))) (members b))"
proof -
  let ?K = "[i ..< min (i + MAX_CONCURRENCY cfg) (length repos)]"
  let ?call = "\<lambda>k. call cfg github repos reporting k (clock st)"
  let ?key = "\<lambda>(k :: nat, ok :: bool, w :: item_world). now w"
  have o: "outcomes = map (\<lambda>k. (k, ?call k)) ?K"
    unfolding outs rep by (rule promises_calls)
  from cs have ms: "mset completed = mset outcomes" and so: "sorted (map ?key completed)"
    unfolding completion_orders_iff by simp_all
  from ms have "set completed = set outcomes" by (rule mset_eq_setD)
  then have shape: "y = (fst y, ?call (fst y))" if "y \<in> set completed" for y
    using that unfolding o by auto
  have via: "map (\<lambda>(k, ok, w). g k ok w) completed
      = map (\<lambda>k. g k (fst (?call k)) (snd (?call k))) (map fst completed)" for g :: "nat \<Rightarrow> bool \<Rightarrow> item_world \<Rightarrow> 'b"
    unfolding map_map comp_def
    by (rule map_cong[OF refl]) (use shape in \<open>auto simp: split_beta\<close>)
  have f1: "map fst outcomes = ?K" unfolding o by (simp add: comp_def)
  have f2: "map ?key outcomes = map (\<lambda>k. now (snd (?call k))) ?K"
    unfolding o by (simp add: comp_def split_beta)
  have f3: "mset (map fst completed) = mset ?K"
    using ms f1 by (metis mset_map)
  have f4: "sorted (map (\<lambda>k. now (snd (?call k))) (map fst completed))"
    using so unfolding via[of "\<lambda>k ok w. now w"] .
  have f5: "map (\<lambda>(k, ok, w). ok) outcomes = map (\<lambda>k. fst (?call k)) ?K"
    unfolding o by (simp add: comp_def split_beta)
  have f6: "length (filter (\<lambda>result. result) (map (\<lambda>k. fst (?call k)) ?K))
      = length (filter (\<lambda>k. fst (?call k)) ?K)"
    by (simp add: filter_map comp_def)
  define b where "b = \<lparr>started = clock st, members = ?K,
      finished = map (\<lambda>k. now (snd (?call k))) ?K,
      completion = map fst completed,
      settled = foldr max (map (\<lambda>k. now (snd (?call k))) ?K) (clock st)\<rparr>"
  have aw: "awaited cfg github repos reporting b"
    unfolding awaited_def b_def using f3 f4 by simp
  have e1: "concat (map (\<lambda>(k, ok, w). pushed w) completed)
      = in_completion_order cfg github repos reporting (\<lambda>k. pushed) [b]"
    unfolding in_completion_order_def b_def via[of "\<lambda>k ok w. pushed w"] by simp
  have e2: "concat (map (\<lambda>(k, ok, w). map (Pair k) (requests w)) completed)
      = in_completion_order cfg github repos reporting (\<lambda>k w. map (Pair k) (requests w)) [b]"
    unfolding in_completion_order_def b_def via[of "\<lambda>k ok w. map (Pair k) (requests w)"]
    by simp
  have e3: "concat (map (\<lambda>(k, ok, w). logged w) completed)
      = in_completion_order cfg github repos reporting (\<lambda>k. logged) [b]"
    unfolding in_completion_order_def b_def via[of "\<lambda>k ok w. logged w"] by simp
  have bs: "batches st1 = batches st @ [b]"
    unfolding st1 settle_batch_def Let_def b_def f1 f2 by simp
  have rest: "clock st1 = (if i + MAX_CONCURRENCY cfg < length repos then settled b + 2000 else settled b) \<and>
     pauses st1 = pauses st @ (if i + MAX_CONCURRENCY cfg < length repos then [2000] else []) \<and>
     report_data st1 =
       (case report_data st of
          None \<Rightarrow> None
        | Some ds \<Rightarrow> Some (ds @ in_completion_order cfg github repos reporting (\<lambda>k. pushed) [b])) \<and>
     api_requests st1 = api_requests st @
       in_completion_order cfg github repos reporting (\<lambda>k w. map (Pair k) (requests w)) [b] \<and>
     error_log st1 = error_log st @
       in_completion_order cfg github repos reporting (\<lambda>k. logged) [b] \<and>
     updatedRepos st1 = updatedRepos st +
       length (filter (\<lambda>k. fst (call cfg github repos reporting k (started b))) (members b))"
    unfolding st1 settle_batch_def Let_def e1 e2 e3 f2 f5 f6
    by (simp add: b_def THROTTLE_DELAY_def timeout_after_def TIMEOUT_MAX_def)
  have "started b = clock st" "members b = ?K" by (simp_all add: b_def)
  with bs aw rest show ?thesis by blast
qed

declare updateBranchProtection_loop.simps [simp del]

lemma MAX_CONCURRENCY_pos: "0 < MAX_CONCURRENCY cfg"
  by (simp add: MAX_CONCURRENCY_def)

lemma ceil_div_step:
  assumes "0 < c" and "i < n"
  shows "(n - i + c - 1) div c = Suc ((n - (i + c) + c - 1) div c)"
proof (cases "i + c \<le> n")
  case True
  define m where "m = n - (i + c)"
  have a: "n - i + c - 1 = (m + c - 1) + c" using True assms unfolding m_def by arith
  have "(q + c) div c = Suc (q div c)" for q
    using assms(1) by (simp add: div_add_self2)
  from this[of "m + c - 1"] show ?thesis unfolding a m_def .
next
  case False
  define d where "d = n - i"
  have d: "0 < d" "d < c" using False assms unfolding d_def by arith+
  have z: "n - (i + c) = 0" using False by simp
  have "(d + c - 1) div c = 1"
  proof -
    have e: "d + c - 1 = (d - 1) + c" using d by arith
    have "(q + c) div c = Suc (q div c)" for q
      using assms(1) by (simp add: div_add_self2)
    from this[of "d - 1"] d show ?thesis unfolding e by simp
  qed
  then show ?thesis unfolding z d_def using assms(1) by simp
qed

lemma ceil_div_pos: 
  assumes "0 < (c::nat)"
  shows "0 < (m + c - 1) div c \<longleftrightarrow> 0 < m"
proof
  assume "0 < (m + c - 1) div c"
  then show "0 < m" using assms by (cases m) auto
next
  assume "0 < m"
  then have "c \<le> m + c - 1" by arith
  then show "0 < (m + c - 1) div c" using assms by (simp add: div_greater_zero_iff)
qed


lemma in_completion_order_Nil [simp]: "in_completion_order cfg github repos reporting f [] = []"
  by (simp add: in_completion_order_def)

lemma in_completion_order_append:
  "in_completion_order cfg github repos reporting f (bs @ cs) =
     in_completion_order cfg github repos reporting f bs @
     in_completion_order cfg github repos reporting f cs"
  by (simp add: in_completion_order_def)

lemma loop_member:
  assumes "i < length repos"
  shows "st' \<in> set (updateBranchProtection_loop cfg github repos i st) \<longleftrightarrow>
     (\<exists>completed\<in>set (completion_orders (promises cfg github repos i st)).
        st' \<in> set (updateBranchProtection_loop cfg github repos (i + MAX_CONCURRENCY cfg)
                 (settle_batch cfg repos i st (promises cfg github repos i st) completed)))"
  using assms
  by (subst updateBranchProtection_loop.simps) (auto simp: process_batch_def Let_def)

lemma loop_done:
  "\<not> i < length repos \<Longrightarrow> updateBranchProtection_loop cfg github repos i st = [st]"
  by (subst updateBranchProtection_loop.simps) simp

lemma loop_effects:
  assumes "st' \<in> set (updateBranchProtection_loop cfg github repos i st)"
    and "reporting = (report_data st \<noteq> None)"
  shows "\<exists>bs. batches st' = batches st @ bs \<and>
     length bs = (length repos - i + MAX_CONCURRENCY cfg - 1) div MAX_CONCURRENCY cfg \<and>
     (\<forall>k<length bs. members (bs ! k) =
        [i + k * MAX_CONCURRENCY cfg ..<
           min (i + (k + 1) * MAX_CONCURRENCY cfg) (length repos)] \<and>
        awaited cfg github repos reporting (bs ! k)) \<and>
     (bs \<noteq> [] \<longrightarrow> started (hd bs) = clock st) \<and>
     (\<forall>k. Suc k < length bs \<longrightarrow> started (bs ! Suc k) = settled (bs ! k) + 2000) \<and>
     pauses st' = pauses st @ replicate (length bs - 1) 2000 \<and>
     clock st' = (if bs = [] then clock st else settled (last bs)) \<and>
     report_data st' =
       (case report_data st of
          None \<Rightarrow> None
        | Some ds \<Rightarrow> Some (ds @ in_completion_order cfg github repos reporting (\<lambda>k. pushed) bs)) \<and>
     api_requests st' = api_requests st @
       in_completion_order cfg github repos reporting (\<lambda>k w. map (Pair k) (requests w)) bs \<and>
     error_log st' = error_log st @
       in_completion_order cfg github repos reporting (\<lambda>k. logged) bs"
  using assms
proof (induction cfg github repos i st rule: updateBranchProtection_loop.induct)
  case (1 cfg github repos i st)
  let ?C = "MAX_CONCURRENCY cfg"
  let ?N = "length repos"
  note pos = MAX_CONCURRENCY_pos[of cfg]
  show ?case
  proof (cases "i < ?N")
    case False
    with "1.prems"(1) have "st' = st" by (simp add: loop_done)
    moreover from False pos have "(?N - i + ?C - 1) div ?C = 0" by simp
    ultimately show ?thesis by (auto split: option.splits)
  next
    case True
    let ?outs = "promises cfg github repos i st"
    from "1.prems"(1) obtain completed where
      cs: "completed \<in> set (completion_orders ?outs)"
      and in1: "st' \<in> set (updateBranchProtection_loop cfg github repos (i + ?C)
                 (settle_batch cfg repos i st ?outs completed))"
      unfolding loop_member[OF True] by blast
    let ?st1 = "settle_batch cfg repos i st ?outs completed"
    have mem1: "?st1 \<in> set (process_batch cfg github repos i st)"
      using cs by (simp add: process_batch_def Let_def)
    from settle_batch_effects[OF refl cs "1.prems"(2) refl] obtain b where
      b1: "batches ?st1 = batches st @ [b]" and b2: "started b = clock st"
      and b3: "members b = [i ..< min (i + ?C) ?N]"
      and b4: "awaited cfg github repos reporting b"
      and b5: "clock ?st1 = (if i + ?C < ?N then settled b + 2000 else settled b)"
      and b6: "pauses ?st1 = pauses st @ (if i + ?C < ?N then [2000] else [])"
      and b7: "report_data ?st1 =
       (case report_data st of
          None \<Rightarrow> None
        | Some ds \<Rightarrow> Some (ds @ in_completion_order cfg github repos reporting (\<lambda>k. pushed) [b]))"
      and b8: "api_requests ?st1 = api_requests st @
       in_completion_order cfg github repos reporting (\<lambda>k w. map (Pair k) (requests w)) [b]"
      and b9: "error_log ?st1 = error_log st @
       in_completion_order cfg github repos reporting (\<lambda>k. logged) [b]"
      by blast
    have rep1: "reporting = (report_data ?st1 \<noteq> None)"
      using "1.prems"(2) b7 by (auto split: option.splits)
    from "1.IH"[OF True mem1 in1 rep1] obtain bs where
      c1: "batches st' = batches ?st1 @ bs"
      and c2: "length bs = (?N - (i + ?C) + ?C - 1) div ?C"
      and c3: "\<forall>k<length bs. members (bs ! k) =
        [i + ?C + k * ?C ..< min (i + ?C + (k + 1) * ?C) ?N] \<and>
        awaited cfg github repos reporting (bs ! k)"
      and c4: "bs \<noteq> [] \<longrightarrow> started (hd bs) = clock ?st1"
      and c5: "\<forall>k. Suc k < length bs \<longrightarrow> started (bs ! Suc k) = settled (bs ! k) + 2000"
      and c6: "pauses st' = pauses ?st1 @ replicate (length bs - 1) 2000"
      and c7: "clock st' = (if bs = [] then clock ?st1 else settled (last bs))"
      and c8: "report_data st' =
       (case report_data ?st1 of
          None \<Rightarrow> None
        | Some ds \<Rightarrow> Some (ds @ in_completion_order cfg github repos reporting (\<lambda>k. pushed) bs))"
      and c9: "api_requests st' = api_requests ?st1 @
       in_completion_order cfg github repos reporting (\<lambda>k w. map (Pair k) (requests w)) bs"
      and c10: "error_log st' = error_log ?st1 @
       in_completion_order cfg github repos reporting (\<lambda>k. logged) bs"
      by blast
    have more: "bs \<noteq> [] \<longleftrightarrow> i + ?C < ?N"
    proof -
      have "bs \<noteq> [] \<longleftrightarrow> 0 < length bs" by simp
      also have "\<dots> \<longleftrightarrow> 0 < ?N - (i + ?C)"
        unfolding c2 by (rule ceil_div_pos[OF pos])
      also have "\<dots> \<longleftrightarrow> i + ?C < ?N" by arith
      finally show ?thesis .
    qed
    let ?bs = "b # bs"
    have d1: "batches st' = batches st @ ?bs" using c1 b1 by simp
    have d2: "length ?bs = (?N - i + ?C - 1) div ?C"
      using c2 ceil_div_step[OF pos True] by simp
    have d3: "members (?bs ! k) = [i + k * ?C ..< min (i + (k + 1) * ?C) ?N] \<and>
        awaited cfg github repos reporting (?bs ! k)" if "k < length ?bs" for k
    proof (cases k)
      case 0
      with b3 b4 show ?thesis by simp
    next
      case (Suc k')
      with that have "k' < length bs" by simp
      with c3 Suc show ?thesis by (simp add: add.assoc add.commute)
    qed
    have d4: "started (hd ?bs) = clock st" using b2 by simp
    have d5: "started (?bs ! Suc k) = settled (?bs ! k) + 2000" if "Suc k < length ?bs" for k
    proof (cases k)
      case 0
      with that have ne: "bs \<noteq> []" by auto
      with c4 have "started (hd bs) = clock ?st1" by simp
      moreover from ne more have "i + ?C < ?N" by simp
      ultimately show ?thesis using 0 b5 ne by (simp add: hd_conv_nth)
    next
      case (Suc k')
      with that c5 show ?thesis by simp
    qed
    have d6: "pauses st' = pauses st @ replicate (length ?bs - 1) 2000"
    proof (cases "bs = []")
      case True
      with more c6 b6 show ?thesis by simp
    next
      case False
      with more have "i + ?C < ?N" by simp
      moreover from False have "replicate (length bs) (2000::int)
          = 2000 # replicate (length bs - 1) 2000"
        by (cases bs) simp_all
      ultimately show ?thesis using c6 b6 by simp
    qed
    have d7: "clock st' = settled (last ?bs)"
    proof (cases "bs = []")
      case True
      with more c7 b5 show ?thesis by simp
    next
      case False
      with c7 show ?thesis by simp
    qed
    have d8: "report_data st' =
       (case report_data st of
          None \<Rightarrow> None
        | Some ds \<Rightarrow> Some (ds @ in_completion_order cfg github repos reporting (\<lambda>k. pushed) ?bs))"
      using c8 b7 in_completion_order_append[of cfg github repos reporting "\<lambda>k. pushed" "[b]" bs]
      by (auto split: option.splits)
    have d9: "api_requests st' = api_requests st @
       in_completion_order cfg github repos reporting (\<lambda>k w. map (Pair k) (requests w)) ?bs"
      using c9 b8 in_completion_order_append[of cfg github repos reporting
          "\<lambda>k w. map (Pair k) (requests w)" "[b]" bs]
      by simp
    have d10: "error_log st' = error_log st @
       in_completion_order cfg github repos reporting (\<lambda>k. logged) ?bs"
      using c10 b9 in_completion_order_append[of cfg github repos reporting "\<lambda>k. logged" "[b]" bs]
      by simp
    have d11: "?bs \<noteq> []" by simp
    show ?thesis
      using d1 d2 d3 d4 d5 d6 d7 d8 d9 d10 d11
      by (intro exI[of _ ?bs]) simp
  qed
qed

lemma loop_nonempty: "updateBranchProtection_loop cfg github repos i st \<noteq> []"
proof (induction cfg github repos i st rule: updateBranchProtection_loop.induct)
  case (1 cfg github repos i st)
  show ?case
  proof (cases "i < length repos")
    case False
    then show ?thesis by (simp add: loop_done)
  next
    case True
    obtain completed where cs: "completed \<in> set (completion_orders (promises cfg github repos i st))"
      using completion_orders_nonempty[of "promises cfg github repos i st"]
      by (meson last_in_set)
    let ?st1 = "settle_batch cfg repos i st (promises cfg github repos i st) completed"
    have mem1: "?st1 \<in> set (process_batch cfg github repos i st)"
      using cs by (simp add: process_batch_def Let_def)
    from "1.IH"[OF True mem1] obtain st' where
      "st' \<in> set (updateBranchProtection_loop cfg github repos (i + MAX_CONCURRENCY cfg) ?st1)"
      by (meson last_in_set)
    with cs have "st' \<in> set (updateBranchProtection_loop cfg github repos i st)"
      unfolding loop_member[OF True] by blast
    then show ?thesis by auto
  qed
qed

lemma concat_map_singletons:
  "\<forall>y\<in>set ys. g y = [h y] \<Longrightarrow> concat (map g ys) = map h ys"
  by (induction ys) auto

lemma length_filter_mset_cong:
  "mset xs = mset ys \<Longrightarrow> length (filter P xs) = length (filter P ys)"
  by (metis mset_filter size_mset)

declare same_batches.simps [simp del]

lemma same_batches_Nil: "same_batches c [] []"
  by (subst same_batches.simps) simp

lemma same_batches_append:
  assumes "0 < c" and "mset xs1 = mset ys1" and "length xs1 \<le> c"
    and "length xs1 = c \<or> (xs2 = [] \<and> ys2 = [])"
    and "same_batches c xs2 ys2"
  shows "same_batches c (xs1 @ xs2) (ys1 @ ys2)"
proof -
  have len: "length ys1 = length xs1" using assms(2) by (metis size_mset)
  show ?thesis
  proof (cases "xs1 = []")
    case True
    with assms(2) have "ys1 = []" by simp
    with True assms(5) show ?thesis by simp
  next
    case False
    from assms(4) show ?thesis
    proof
      assume c: "length xs1 = c"
      with len assms(1,2,5) False show ?thesis
        by (subst same_batches.simps) simp
    next
      assume e: "xs2 = [] \<and> ys2 = []"
      with len assms(1,2,3) False show ?thesis
        by (subst same_batches.simps) (simp add: same_batches_Nil)
    qed
  qed
qed

lemma same_batches_one: "same_batches (Suc 0) xs ys \<Longrightarrow> xs = ys"
proof (induction xs arbitrary: ys)
  case Nil
  then show ?case by (subst (asm) same_batches.simps) (auto split: if_splits)
next
  case (Cons x xs)
  from Cons.prems have a: "mset (take (Suc 0) (x # xs)) = mset (take (Suc 0) ys)"
    and b: "same_batches (Suc 0) (drop (Suc 0) (x # xs)) (drop (Suc 0) ys)"
    by (subst (asm) same_batches.simps, simp)+
  from a obtain y ys' where ys: "ys = y # ys'" by (cases ys) auto
  with a have "x = y" by simp
  moreover from b ys have "same_batches (Suc 0) xs ys'" by simp
  ultimately show ?case using Cons.IH ys by simp
qed

lemma count_by_status:
  "list_all (\<lambda>x. outcome_status (status x)) ds \<Longrightarrow>
   length (filter (\<lambda>x. status x = ''updated'') ds) +
   length (filter (\<lambda>x. status x = ''simulated'') ds) +
   length (filter (\<lambda>x. status x = ''skipped'') ds) +
   length (filter (\<lambda>x. status x = ''error'') ds) = length ds"
  by (induction ds) (auto simp: outcome_status_def)


lemma call_reports:
  "\<exists>x. pushed (snd (call cfg github repos True k t)) = [x] \<and>
       repository x = name (repos ! k) \<and> outcome_status (status x)"
  unfolding call_def
  using processRepository_reports[of cfg "github k" "repos ! k" k "length repos" t] by blast

lemma entries_in_completion_order:
  "\<exists>es. in_completion_order cfg github repos True (\<lambda>k. pushed) bs = es \<and>
     map repository es = map (\<lambda>k. name (repos ! k)) (concat (map completion bs)) \<and>
     list_all (\<lambda>x. outcome_status (status x)) es"
proof -
  let ?e = "\<lambda>b k. hd (pushed (snd (call cfg github repos True k (started b))))"
  have one: "pushed (snd (call cfg github repos True k t)) = [hd (pushed (snd (call cfg github repos True k t)))] \<and>
      repository (hd (pushed (snd (call cfg github repos True k t)))) = name (repos ! k) \<and>
      outcome_status (status (hd (pushed (snd (call cfg github repos True k t)))))" for k t
    using call_reports[of cfg github repos k t] by auto
  have per: "concat (map (\<lambda>k. pushed (snd (call cfg github repos True k (started b)))) ks)
      = map (?e b) ks" for b :: batch_record and ks
    by (rule concat_map_singletons) (use one in auto)
  have eq: "in_completion_order cfg github repos True (\<lambda>k. pushed) bs
      = concat (map (\<lambda>b. map (?e b) (completion b)) bs)"
    unfolding in_completion_order_def per ..
  have r: "map repository (concat (map (\<lambda>b. map (?e b) (completion b)) bs))
      = map (\<lambda>k. name (repos ! k)) (concat (map completion bs))"
    by (induction bs) (use one in \<open>simp_all add: comp_def\<close>)
  have s: "list_all (\<lambda>x. outcome_status (status x))
      (concat (map (\<lambda>b. map (?e b) (completion b)) bs))"
    by (induction bs) (use one in \<open>auto simp: list_all_iff\<close>)
  from eq r s show ?thesis by simp
qed

lemma slice_of_repos:
  "map (\<lambda>k. f (repos ! k)) [i ..< min (i + c) (length repos)] = map f (take c (drop i repos))"
proof (rule nth_equalityI)
  show "length (map (\<lambda>k. f (repos ! k)) [i ..< min (i + c) (length repos)])
      = length (map f (take c (drop i repos)))"
    by (auto simp: min_def)
next
  fix j assume "j < length (map (\<lambda>k. f (repos ! k)) [i ..< min (i + c) (length repos)])"
  then have j: "j < c" "i + j < length repos" "i + j < min (i + c) (length repos)"
    by (auto simp: min_def split: if_splits)
  then have "[i ..< min (i + c) (length repos)] ! j = i + j" by (intro nth_upt)
  with j show "map (\<lambda>k. f (repos ! k)) [i ..< min (i + c) (length repos)] ! j
      = map f (take c (drop i repos)) ! j"
    by simp
qed

lemma mset_map_cong_mset:
  "mset xs = mset ys \<Longrightarrow> mset (map f xs) = mset (map f ys)"
  by (metis mset_map)

lemma loop_report:
  assumes "st' \<in> set (updateBranchProtection_loop cfg github repos i st)"
    and "report_data st = Some ds"
  shows "\<exists>more. report_data st' = Some (ds @ more) \<and>
     same_batches (MAX_CONCURRENCY cfg) (map name (drop i repos)) (map repository more) \<and>
     length more = length repos - i \<and>
     list_all (\<lambda>x. outcome_status (status x)) more"
  using assms
proof (induction cfg github repos i st arbitrary: ds rule: updateBranchProtection_loop.induct)
  case (1 cfg github repos i st)
  let ?C = "MAX_CONCURRENCY cfg"
  show ?case
  proof (cases "i < length repos")
    case False
    with "1.prems"(1) have "st' = st" by (simp add: loop_done)
    with False "1.prems"(2) show ?thesis
      by (simp add: same_batches_Nil)
  next
    case True
    let ?outs = "promises cfg github repos i st"
    from "1.prems"(1) obtain completed where
      cs: "completed \<in> set (completion_orders ?outs)"
      and in1: "st' \<in> set (updateBranchProtection_loop cfg github repos (i + ?C)
                 (settle_batch cfg repos i st ?outs completed))"
      unfolding loop_member[OF True] by blast
    let ?st1 = "settle_batch cfg repos i st ?outs completed"
    have mem1: "?st1 \<in> set (process_batch cfg github repos i st)"
      using cs by (simp add: process_batch_def Let_def)
    have rp: "True = (report_data st \<noteq> None)" using "1.prems"(2) by simp
    from settle_batch_effects[OF refl cs rp refl] obtain b where
      b3: "members b = [i ..< min (i + ?C) (length repos)]"
      and b4: "awaited cfg github repos True b"
      and b7: "report_data ?st1 =
          Some (ds @ in_completion_order cfg github repos True (\<lambda>k. pushed) [b])"
      using "1.prems"(2) by auto
    from entries_in_completion_order[of cfg github repos "[b]"] obtain m1 where
      m1: "in_completion_order cfg github repos True (\<lambda>k. pushed) [b] = m1"
      and n1: "map repository m1 = map (\<lambda>k. name (repos ! k)) (completion b)"
      and s1: "list_all (\<lambda>x. outcome_status (status x)) m1"
      by auto
    have r1: "report_data ?st1 = Some (ds @ m1)" using b7 m1 by simp
    from b4 have perm: "mset (completion b) = mset (members b)" by (simp add: awaited_def)
    have p1: "mset (map repository m1) = mset (map name (take ?C (drop i repos)))"
      unfolding n1 using mset_map_cong_mset[OF perm, of "\<lambda>k. name (repos ! k)"]
      by (simp add: b3 slice_of_repos)
    have l1: "length m1 = length (take ?C (drop i repos))"
      using p1 by (metis length_map size_mset)
    from "1.IH"[OF True mem1 in1 r1] obtain m2 where
      r2: "report_data st' = Some ((ds @ m1) @ m2)"
      and p2: "same_batches ?C (map name (drop (i + ?C) repos)) (map repository m2)"
      and l2: "length m2 = length repos - (i + ?C)"
      and s2: "list_all (\<lambda>x. outcome_status (status x)) m2"
      by blast
    have split: "map name (drop i repos) =
        map name (take ?C (drop i repos)) @ map name (drop (i + ?C) repos)"
      by (metis add.commute append_take_drop_id drop_drop map_append)
    have full: "length (map name (take ?C (drop i repos))) = ?C \<or>
        (map name (drop (i + ?C) repos) = [] \<and> map repository m2 = [])"
    proof (cases "i + ?C \<le> length repos")
      case True
      then show ?thesis by simp
    next
      case False
      with l2 show ?thesis by simp
    qed
    have sb: "same_batches ?C (map name (drop i repos)) (map repository (m1 @ m2))"
      unfolding split map_append
      by (rule same_batches_append[OF MAX_CONCURRENCY_pos p1[symmetric] _ full p2]) simp
    have len: "length (m1 @ m2) = length repos - i"
      using l1 l2 True by (simp add: min_def)
    show ?thesis
      using r2 sb len s1 s2
      by (intro exI[of _ "m1 @ m2"]) simp
  qed
qed

lemma run_member:
  "res \<in> set (run cfg github repos t) \<longleftrightarrow>
     (if repos = [] then res = None
      else \<exists>st\<in>set (updateBranchProtection cfg github
                      (filter (\<lambda>r. name r \<noteq> [] \<and> defaultBranch r \<noteq> []) repos)
                      (REPORT_FILE cfg \<noteq> None) t).
             res = write_report cfg (filter (\<lambda>r. name r \<noteq> [] \<and> defaultBranch r \<noteq> []) repos) st)"
  by (auto simp: run_def Let_def)

lemma run_nonempty: "run cfg github repos t \<noteq> []"
  by (simp add: run_def Let_def updateBranchProtection_def loop_nonempty)

lemma run_result:
  assumes "Some (rep, st) \<in> set (run cfg github repos t)"
    and "valid = filter (\<lambda>r. name r \<noteq> [] \<and> defaultBranch r \<noteq> []) repos"
  shows "repos \<noteq> [] \<and> REPORT_FILE cfg \<noteq> None \<and>
     st \<in> set (updateBranchProtection cfg github valid True t) \<and>
     report_data st = Some (details rep) \<and>
     summary rep = \<lparr>totalRepositories = length valid,
       repositoriesUpdated = updatedRepos st,
       repositoriesWithErrors = length (filter (\<lambda>x. status x = ''error'') (details rep)),
       repositoriesSkipped = length (filter (\<lambda>x. status x = ''skipped'') (details rep))\<rparr>"
  using assms(1) unfolding run_member assms(2)
  by (auto simp: write_report_def split: if_splits option.splits)

lemma updateBranchProtection_report:
  assumes "st \<in> set (updateBranchProtection cfg github repos True t)"
  shows "\<exists>more. report_data st = Some more \<and>
     same_batches (MAX_CONCURRENCY cfg) (map name repos) (map repository more) \<and>
     length more = length repos \<and>
     list_all (\<lambda>x. outcome_status (status x)) more"
proof -
  let ?st0 = "\<lparr>clock = t, updatedRepos = 0, report_data = Some [],
        batches = [], pauses = [], api_requests = [], error_log = []\<rparr>"
  have st0: "report_data ?st0 = Some []" by simp
  from assms have "st \<in> set (updateBranchProtection_loop cfg github repos 0 ?st0)"
    by (simp add: updateBranchProtection_def)
  from loop_report[OF this st0] show ?thesis by simp
qed

lemma run_writes_report:
  assumes "res \<in> set (run cfg github repos t)"
  shows "res \<noteq> None \<longleftrightarrow> repos \<noteq> [] \<and> REPORT_FILE cfg \<noteq> None"
proof (cases "repos \<noteq> [] \<and> REPORT_FILE cfg \<noteq> None")
  case False
  with assms show ?thesis
    unfolding run_member by (auto simp: write_report_def split: if_splits)
next
  case True
  let ?valid = "filter (\<lambda>r. name r \<noteq> [] \<and> defaultBranch r \<noteq> []) repos"
  from assms True obtain st where
    st: "st \<in> set (updateBranchProtection cfg github ?valid True t)"
    and res: "res = write_report cfg ?valid st"
    unfolding run_member by auto
  from updateBranchProtection_report[OF st] obtain more where "report_data st = Some more"
    by blast
  with res True show ?thesis by (auto simp: write_report_def)
qed

lemmas run_all =
  run_def write_report_def updateBranchProtection_def updateBranchProtection_loop.simps
  process_batch_def promises_def settle_batch_def completion_orders_def
  MAX_CONCURRENCY_def REPORT_FILE_def

subsection \<open>The counts of the report\<close>

text \<open>
  Claim C1 as the spec words it fails. The summary has no count of simulated
  repositories, and its \<open>repositoriesUpdated\<close> is the number of calls of \<open>processRepository\<close>
  that returned \<open>true\<close>, which a skipped repository does too: a run over one repository
  without branch protection reports 1 updated, 1 skipped and 0 errors, which with its 0
  simulated elements add up to 2, for 1 repository. And a run over an empty list of
  repositories writes no report at all.
\<close>

theorem report_counts_counterexample:
  "map (map_option (\<lambda>(rep, st). (summary rep, map status (details rep))))
     (run (options False (Some [''ci'']) 5) (\<lambda>i. always (Inl (http_error 404 ''Not Found'')))
        [sample_repo ''service''] 0)
     = [Some (\<lparr>totalRepositories = 1, repositoriesUpdated = 1, repositoriesWithErrors = 0,
               repositoriesSkipped = 1\<rparr>, [''skipped''])] \<and>
   run (options False (Some [''ci'']) 5) (\<lambda>i. always (Inl (http_error 404 ''Not Found'')))
     [] 0 = [None]"
  by (simp add: run_all run_item samples)

subsection \<open>The order of the report\<close>

text \<open>
  Claim C3 as the spec words it fails. Two repositories are processed in one batch; the
  lookup for the first is rejected once with status 502 and repeated after a second,
  the second repository has no branch protection and completes first. The report lists
  \<open>beta\<close> before \<open>alpha\<close>.
\<close>

theorem details_order_counterexample:
  "map (map_option (\<lambda>(rep, st). map repository (details rep)))
     (run (options False (Some [''ci'']) 5)
        (\<lambda>i. if i = 0 then failing_once (requiring [''ci''])
             else always (Inl (http_error 404 ''Not Found'')))
        [sample_repo ''alpha'', sample_repo ''beta''] 0)
     = [Some [''beta'', ''alpha'']]"
  by (simp add: run_all run_item samples)

text \<open>
  Claim C1, amended. A run ends in some way, and in whichever way it ends: a report is
  written exactly when the list of repositories is not empty and a report file is
  named. Then, with \<open>N\<close> the number of repositories that have a name and a default branch
  (\<open>N\<close> may be 0), \<open>totalRepositories\<close> is \<open>N\<close>, \<open>details\<close> has \<open>N\<close> elements, the numbers of
  elements with status \<open>updated\<close>, \<open>simulated\<close>, \<open>skipped\<close> and \<open>error\<close> add up to \<open>N\<close>, and
  \<open>repositoriesSkipped\<close> and \<open>repositoriesWithErrors\<close> are the numbers of \<open>skipped\<close> and of
  \<open>error\<close> elements.
\<close>

theorem report_counts:
  "run cfg github repos t \<noteq> [] \<and>
   (\<forall>res\<in>set (run cfg github repos t).
      (res \<noteq> None \<longleftrightarrow> repos \<noteq> [] \<and> REPORT_FILE cfg \<noteq> None) \<and>
      (\<forall>rep st. res = Some (rep, st) \<longrightarrow>
         totalRepositories (summary rep)
           = length (filter (\<lambda>r. name r \<noteq> [] \<and> defaultBranch r \<noteq> []) repos) \<and>
         length (details rep) = totalRepositories (summary rep) \<and>
         length (filter (\<lambda>x. status x = ''updated'') (details rep)) +
         length (filter (\<lambda>x. status x = ''simulated'') (details rep)) +
         length (filter (\<lambda>x. status x = ''skipped'') (details rep)) +
         length (filter (\<lambda>x. status x = ''error'') (details rep))
           = totalRepositories (summary rep) \<and>
         repositoriesSkipped (summary rep)
           = length (filter (\<lambda>x. status x = ''skipped'') (details rep)) \<and>
         repositoriesWithErrors (summary rep)
           = length (filter (\<lambda>x. status x = ''error'') (details rep))))"
proof (intro conjI ballI allI impI)
  show "run cfg github repos t \<noteq> []" by (rule run_nonempty)
next
  fix res assume "res \<in> set (run cfg github repos t)"
  then show "res \<noteq> None \<longleftrightarrow> repos \<noteq> [] \<and> REPORT_FILE cfg \<noteq> None"
    by (rule run_writes_report)
next
  fix res rep st
  assume "res \<in> set (run cfg github repos t)" and "res = Some (rep, st)"
  then have r: "Some (rep, st) \<in> set (run cfg github repos t)" by simp
  let ?valid = "filter (\<lambda>r. name r \<noteq> [] \<and> defaultBranch r \<noteq> []) repos"
  note res = run_result[OF r refl]
  then have st: "st \<in> set (updateBranchProtection cfg github ?valid True t)" by simp
  from updateBranchProtection_report[OF st] res
  have len: "length (details rep) = length ?valid"
    and ok: "list_all (\<lambda>x. outcome_status (status x)) (details rep)"
    by auto
  from res show "totalRepositories (summary rep) = length ?valid" by simp
  from res len show "length (details rep) = totalRepositories (summary rep)" by simp
  from res len count_by_status[OF ok]
  show "length (filter (\<lambda>x. status x = ''updated'') (details rep)) +
      length (filter (\<lambda>x. status x = ''simulated'') (details rep)) +
      length (filter (\<lambda>x. status x = ''skipped'') (details rep)) +
      length (filter (\<lambda>x. status x = ''error'') (details rep))
        = totalRepositories (summary rep)"
    by simp
  from res show "repositoriesSkipped (summary rep)
        = length (filter (\<lambda>x. status x = ''skipped'') (details rep))"
    by simp
  from res show "repositoriesWithErrors (summary rep)
        = length (filter (\<lambda>x. status x = ''error'') (details rep))"
    by simp
qed

text \<open>Three repositories without branch protection, two at a time.\<close>

theorem report_counts_witness:
  "run (options False (Some [''ci'']) 2) (\<lambda>i. always (Inl (http_error 404 ''Not Found'')))
       [sample_repo ''alpha'', sample_repo ''beta'', sample_repo ''gamma''] 0 \<noteq> [] \<and>
   list_all (\<lambda>res. case res of
       Some (rep, st) \<Rightarrow> length (details rep) = 3 \<and> totalRepositories (summary rep) = 3
     | None \<Rightarrow> False)
     (run (options False (Some [''ci'']) 2) (\<lambda>i. always (Inl (http_error 404 ''Not Found'')))
       [sample_repo ''alpha'', sample_repo ''beta'', sample_repo ''gamma''] 0)"
proof -
  let ?run = "run (options False (Some [''ci'']) 2)
       (\<lambda>i. always (Inl (http_error 404 ''Not Found'')))
       [sample_repo ''alpha'', sample_repo ''beta'', sample_repo ''gamma''] 0"
  note th = report_counts[of "options False (Some [''ci'']) 2"
       "\<lambda>i. always (Inl (http_error 404 ''Not Found''))"
       "[sample_repo ''alpha'', sample_repo ''beta'', sample_repo ''gamma'']" 0]
  have "case res of
       Some (rep, st) \<Rightarrow> length (details rep) = 3 \<and> totalRepositories (summary rep) = 3
     | None \<Rightarrow> False" if "res \<in> set ?run" for res
  proof -
    from th that have "res \<noteq> None" by (simp add: options_def REPORT_FILE_def)
    then obtain rep st where r: "res = Some (rep, st)" by auto
    with th that have "length (details rep) = 3 \<and> totalRepositories (summary rep) = 3"
      by (simp add: sample_repo_def)
    with r show ?thesis by simp
  qed
  with th show ?thesis by (simp add: list_all_iff)
qed

lemma foldr_max_bounds:
  "list_all (\<lambda>f. f \<le> foldr max fs (t::int)) fs \<and> t \<le> foldr max fs t"
proof (induction fs)
  case Nil
  then show ?case by simp
next
  case (Cons f fs)
  then have a: "list_all (\<lambda>g. g \<le> foldr max fs t) fs" and b: "t \<le> foldr max fs t"
    by simp_all
  from a have "list_all (\<lambda>g. g \<le> max f (foldr max fs t)) fs"
    by (auto simp: list_all_iff le_max_iff_disj)
  with b show ?case by simp
qed


lemma updateBranchProtection_effects:
  assumes "st' \<in> set (updateBranchProtection cfg github repos reporting t)"
  shows "length (batches st')
       = (length repos + MAX_CONCURRENCY cfg - 1) div MAX_CONCURRENCY cfg \<and>
     (\<forall>k<length (batches st'). members (batches st' ! k) =
        [k * MAX_CONCURRENCY cfg ..< min ((k + 1) * MAX_CONCURRENCY cfg) (length repos)] \<and>
        awaited cfg github repos reporting (batches st' ! k)) \<and>
     (batches st' \<noteq> [] \<longrightarrow> started (hd (batches st')) = t) \<and>
     (\<forall>k. Suc k < length (batches st') \<longrightarrow>
        started (batches st' ! Suc k) = settled (batches st' ! k) + 2000) \<and>
     pauses st' = replicate (length (batches st') - 1) 2000 \<and>
     clock st' = (if batches st' = [] then t else settled (last (batches st'))) \<and>
     report_data st' =
       (if reporting
        then Some (in_completion_order cfg github repos reporting (\<lambda>k. pushed) (batches st'))
        else None) \<and>
     api_requests st' =
       in_completion_order cfg github repos reporting (\<lambda>k w. map (Pair k) (requests w))
         (batches st') \<and>
     error_log st' = in_completion_order cfg github repos reporting (\<lambda>k. logged) (batches st')"
proof -
  let ?st0 = "\<lparr>clock = t, updatedRepos = 0,
        report_data = (if reporting then Some [] else None),
        batches = [], pauses = [], api_requests = [], error_log = []\<rparr>"
  from assms have in0: "st' \<in> set (updateBranchProtection_loop cfg github repos 0 ?st0)"
    by (simp add: updateBranchProtection_def)
  have rp: "reporting = (report_data ?st0 \<noteq> None)" by simp
  from loop_effects[OF in0 rp] show ?thesis by (auto split: if_splits)
qed

text \<open>
  Claim C3, amended. In whichever way a run ends, the elements of \<open>details\<close> follow the
  input batch by batch. Batch \<open>j\<close> holds the repositories with the indices \<open>j * C\<close> up to
  \<open>min ((j + 1) * C) N\<close>; \<open>details\<close> is made of the elements that the calls of the first
  batch pushed, then those of the second batch, and so on, and inside a batch the
  elements stand in the order in which the calls completed: each repository of the
  batch once, one whose call completes at an earlier time before one whose call
  completes later. So \<open>details\<close>, cut into pieces of \<open>C\<close> elements, names in each piece the
  repositories of the corresponding piece of the input; and with a concurrency of 1 the
  i-th element of \<open>details\<close> is that of the i-th repository.
\<close>

theorem details_follow_batches:
  "\<forall>res\<in>set (run cfg github repos t). \<forall>rep st. res = Some (rep, st) \<longrightarrow>
     (let valid = filter (\<lambda>r. name r \<noteq> [] \<and> defaultBranch r \<noteq> []) repos;
          C = MAX_CONCURRENCY cfg
      in (\<forall>j<length (batches st).
            members (batches st ! j) = [j * C ..< min ((j + 1) * C) (length valid)] \<and>
            mset (completion (batches st ! j)) = mset (members (batches st ! j)) \<and>
            sorted (map (\<lambda>k. now (snd (call cfg github valid True k (started (batches st ! j)))))
                      (completion (batches st ! j)))) \<and>
         details rep = in_completion_order cfg github valid True (\<lambda>k. pushed) (batches st) \<and>
         map repository (details rep)
           = map (\<lambda>k. name (valid ! k)) (concat (map completion (batches st))) \<and>
         same_batches C (map name valid) (map repository (details rep)) \<and>
         (C = 1 \<longrightarrow> map repository (details rep) = map name valid))"
proof (intro ballI allI impI)
  fix res rep st
  assume "res \<in> set (run cfg github repos t)" and "res = Some (rep, st)"
  then have r: "Some (rep, st) \<in> set (run cfg github repos t)" by simp
  define valid where "valid = filter (\<lambda>r. name r \<noteq> [] \<and> defaultBranch r \<noteq> []) repos"
  define C where "C = MAX_CONCURRENCY cfg"
  note res = run_result[OF r valid_def]
  then have st: "st \<in> set (updateBranchProtection cfg github valid True t)"
    and rd: "report_data st = Some (details rep)"
    by simp_all
  note eff = updateBranchProtection_effects[OF st]
  have a: "\<forall>j<length (batches st).
            members (batches st ! j) = [j * C ..< min ((j + 1) * C) (length valid)] \<and>
            mset (completion (batches st ! j)) = mset (members (batches st ! j)) \<and>
            sorted (map (\<lambda>k. now (snd (call cfg github valid True k (started (batches st ! j)))))
                      (completion (batches st ! j)))"
    using eff unfolding C_def awaited_def by simp
  have b: "details rep = in_completion_order cfg github valid True (\<lambda>k. pushed) (batches st)"
    using eff rd by simp
  have c: "map repository (details rep)
           = map (\<lambda>k. name (valid ! k)) (concat (map completion (batches st)))"
    unfolding b using entries_in_completion_order[of cfg github valid "batches st"] by simp
  from updateBranchProtection_report[OF st] rd
  have d: "same_batches C (map name valid) (map repository (details rep))"
    unfolding C_def by auto
  have e: "map repository (details rep) = map name valid" if "C = 1"
    using d that same_batches_one by fastforce
  from a b c d e
  show "let valid = filter (\<lambda>r. name r \<noteq> [] \<and> defaultBranch r \<noteq> []) repos;
          C = MAX_CONCURRENCY cfg
      in (\<forall>j<length (batches st).
            members (batches st ! j) = [j * C ..< min ((j + 1) * C) (length valid)] \<and>
            mset (completion (batches st ! j)) = mset (members (batches st ! j)) \<and>
            sorted (map (\<lambda>k. now (snd (call cfg github valid True k (started (batches st ! j)))))
                      (completion (batches st ! j)))) \<and>
         details rep = in_completion_order cfg github valid True (\<lambda>k. pushed) (batches st) \<and>
         map repository (details rep)
           = map (\<lambda>k. name (valid ! k)) (concat (map completion (batches st))) \<and>
         same_batches C (map name valid) (map repository (details rep)) \<and>
         (C = 1 \<longrightarrow> map repository (details rep) = map name valid)"
    unfolding Let_def valid_def[symmetric] C_def[symmetric] by blast
qed

text \<open>The two repositories of the counterexample: the call for \<open>beta\<close> (index 1) completes
  before the call for \<open>alpha\<close> (index 0).\<close>

theorem details_follow_batches_witness:
  "run (options False (Some [''ci'']) 5)
        (\<lambda>i. if i = 0 then failing_once (requiring [''ci''])
             else always (Inl (http_error 404 ''Not Found'')))
        [sample_repo ''alpha'', sample_repo ''beta''] 0 \<noteq> [] \<and>
   list_all (\<lambda>res. case res of
       Some (rep, st) \<Rightarrow>
         map completion (batches st) = [ [1, 0] ] \<and>
         map repository (details rep) = [''beta'', ''alpha'']
     | None \<Rightarrow> False)
     (run (options False (Some [''ci'']) 5)
        (\<lambda>i. if i = 0 then failing_once (requiring [''ci''])
             else always (Inl (http_error 404 ''Not Found'')))
        [sample_repo ''alpha'', sample_repo ''beta''] 0)"
proof -
  let ?github = "\<lambda>i. if i = 0 then failing_once (requiring [''ci''])
             else always (Inl (http_error 404 ''Not Found''))"
  let ?repos = "[sample_repo ''alpha'', sample_repo ''beta'']"
  let ?run = "run (options False (Some [''ci'']) 5) ?github ?repos 0"
  have ev: "map (map_option (\<lambda>(rep, st). map completion (batches st))) ?run = [Some [ [1, 0] ]]"
    by (simp add: run_all run_item samples)
  have "case res of
       Some (rep, st) \<Rightarrow>
         map completion (batches st) = [ [1, 0] ] \<and>
         map repository (details rep) = [''beta'', ''alpha'']
     | None \<Rightarrow> False" if "res \<in> set ?run" for res
  proof -
    from that have "map_option (\<lambda>(rep, st). map completion (batches st)) res
        \<in> set (map (map_option (\<lambda>(rep, st). map completion (batches st))) ?run)"
      by simp
    then have "map_option (\<lambda>(rep, st). map completion (batches st)) res = Some [ [1, 0] ]"
      unfolding ev by simp
    then obtain rep st where r: "res = Some (rep, st)"
      and c: "map completion (batches st) = [ [1, 0] ]"
      by (cases res) auto
    from details_follow_batches[of "options False (Some [''ci'']) 5" ?github ?repos 0] that r
    have "map repository (details rep)
        = map (\<lambda>k. name (filter (\<lambda>r. name r \<noteq> [] \<and> defaultBranch r \<noteq> []) ?repos ! k))
            (concat (map completion (batches st)))"
      unfolding Let_def by blast
    then have "map repository (details rep) = [''beta'', ''alpha'']"
      unfolding c by (simp add: sample_repo_def)
    with r c show ?thesis by simp
  qed
  then show ?thesis using run_nonempty[of _ ?github ?repos 0] by (simp add: list_all_iff)
qed

subsection \<open>Batches\<close>

text \<open>
  Claim C5. Let \<open>N\<close> repositories be handed to \<open>updateBranchProtection\<close> and let \<open>C\<close> be
  \<open>MAX_CONCURRENCY\<close>, which is the concurrency asked for when that is at least 1.
  The function returns, and in whichever state it returns: it has started
  \<open>ceil(N / C)\<close> batches; batch \<open>k\<close> holds the repositories with the indices \<open>k * C\<close> up to
  \<open>min ((k + 1) * C) N\<close>, so the batches are contiguous, of size \<open>C\<close> but for a smaller last
  one. For every repository of a batch \<open>processRepository\<close> was called when the batch
  started, \<open>finished\<close> holding the time at which each of these calls completed; the batch
  settles when the last of them has completed, so that every call of the batch has
  completed by then, and the requests sent are those of these calls. The first batch
  starts at once and every other batch 2000 ms (the delay between batches) after the
  batch before it settled. The scheduler delays once between two consecutive batches
  and not after the last one, and returns when the last batch settles; for an empty
  input it starts no batch, never delays and takes no time.
\<close>

theorem batches_of_run:
  "let C = MAX_CONCURRENCY cfg; N = length repos
   in (1 \<le> argv_concurrency cfg \<longrightarrow> C = argv_concurrency cfg) \<and>
      updateBranchProtection cfg github repos reporting t \<noteq> [] \<and>
      (\<forall>st'\<in>set (updateBranchProtection cfg github repos reporting t).
         length (batches st') = (N + C - 1) div C \<and>
         (\<forall>k<length (batches st').
            members (batches st' ! k) = [k * C ..< min ((k + 1) * C) N] \<and>
            finished (batches st' ! k) =
              map (\<lambda>j. now (snd (call cfg github repos reporting j (started (batches st' ! k)))))
                (members (batches st' ! k)) \<and>
            settled (batches st' ! k) =
              foldr max (finished (batches st' ! k)) (started (batches st' ! k)) \<and>
            list_all (\<lambda>f. f \<le> settled (batches st' ! k)) (finished (batches st' ! k)) \<and>
            mset (completion (batches st' ! k)) = mset (members (batches st' ! k))) \<and>
         (batches st' \<noteq> [] \<longrightarrow> started (hd (batches st')) = t) \<and>
         (\<forall>k. Suc k < length (batches st') \<longrightarrow>
            started (batches st' ! Suc k) = settled (batches st' ! k) + 2000) \<and>
         pauses st' = replicate (length (batches st') - 1) 2000 \<and>
         api_requests st' =
           in_completion_order cfg github repos reporting (\<lambda>j w. map (Pair j) (requests w))
             (batches st') \<and>
         clock st' = (if batches st' = [] then t else settled (last (batches st'))) \<and>
         (N = 0 \<longrightarrow> batches st' = [] \<and> pauses st' = [] \<and> clock st' = t))"
proof -
  define C where "C = MAX_CONCURRENCY cfg"
  define N where "N = length repos"
  have conc: "1 \<le> argv_concurrency cfg \<longrightarrow> C = argv_concurrency cfg"
    by (simp add: C_def MAX_CONCURRENCY_def)
  have ne: "updateBranchProtection cfg github repos reporting t \<noteq> []"
    by (simp add: updateBranchProtection_def loop_nonempty)
  have main: "length (batches st') = (N + C - 1) div C \<and>
         (\<forall>k<length (batches st').
            members (batches st' ! k) = [k * C ..< min ((k + 1) * C) N] \<and>
            finished (batches st' ! k) =
              map (\<lambda>j. now (snd (call cfg github repos reporting j (started (batches st' ! k)))))
                (members (batches st' ! k)) \<and>
            settled (batches st' ! k) =
              foldr max (finished (batches st' ! k)) (started (batches st' ! k)) \<and>
            list_all (\<lambda>f. f \<le> settled (batches st' ! k)) (finished (batches st' ! k)) \<and>
            mset (completion (batches st' ! k)) = mset (members (batches st' ! k))) \<and>
         (batches st' \<noteq> [] \<longrightarrow> started (hd (batches st')) = t) \<and>
         (\<forall>k. Suc k < length (batches st') \<longrightarrow>
            started (batches st' ! Suc k) = settled (batches st' ! k) + 2000) \<and>
         pauses st' = replicate (length (batches st') - 1) 2000 \<and>
         api_requests st' =
           in_completion_order cfg github repos reporting (\<lambda>j w. map (Pair j) (requests w))
             (batches st') \<and>
         clock st' = (if batches st' = [] then t else settled (last (batches st'))) \<and>
         (N = 0 \<longrightarrow> batches st' = [] \<and> pauses st' = [] \<and> clock st' = t)"
    if "st' \<in> set (updateBranchProtection cfg github repos reporting t)" for st'
  proof -
    note eff = updateBranchProtection_effects[OF that, folded C_def N_def]
    have aw: "awaited cfg github repos reporting (batches st' ! k)"
      if "k < length (batches st')" for k
      using eff that by simp
    have per: "finished (batches st' ! k) =
              map (\<lambda>j. now (snd (call cfg github repos reporting j (started (batches st' ! k)))))
                (members (batches st' ! k)) \<and>
            settled (batches st' ! k) =
              foldr max (finished (batches st' ! k)) (started (batches st' ! k)) \<and>
            list_all (\<lambda>f. f \<le> settled (batches st' ! k)) (finished (batches st' ! k)) \<and>
            mset (completion (batches st' ! k)) = mset (members (batches st' ! k))"
      if "k < length (batches st')" for k
    proof -
      from aw[OF that] have s: "settled (batches st' ! k) =
              foldr max (finished (batches st' ! k)) (started (batches st' ! k))"
        by (simp add: awaited_def)
      have "list_all (\<lambda>f. f \<le> settled (batches st' ! k)) (finished (batches st' ! k))"
        unfolding s using foldr_max_bounds by blast
      with aw[OF that] show ?thesis by (simp add: awaited_def)
    qed
    have empty: "batches st' = []" if "N = 0"
    proof -
      have "0 < C" unfolding C_def by (rule MAX_CONCURRENCY_pos)
      with that eff show ?thesis by simp
    qed
    have e1: "length (batches st') = (N + C - 1) div C" using eff by simp
    have e2: "members (batches st' ! k) = [k * C ..< min ((k + 1) * C) N]"
      if "k < length (batches st')" for k
      using eff that by simp
    have e3: "batches st' \<noteq> [] \<longrightarrow> started (hd (batches st')) = t" using eff by simp
    have e4: "\<forall>k. Suc k < length (batches st') \<longrightarrow>
            started (batches st' ! Suc k) = settled (batches st' ! k) + 2000"
      using eff by simp
    have e5: "pauses st' = replicate (length (batches st') - 1) 2000" using eff by simp
    have e6: "api_requests st' =
           in_completion_order cfg github repos reporting (\<lambda>j w. map (Pair j) (requests w))
             (batches st')"
      using eff by simp
    have e7: "clock st' = (if batches st' = [] then t else settled (last (batches st')))"
      using eff by simp
    have e8: "N = 0 \<longrightarrow> batches st' = [] \<and> pauses st' = [] \<and> clock st' = t"
      using empty e5 e7 by simp
    from e1 e2 per e3 e4 e5 e6 e7 e8 show ?thesis by blast
  qed
  from conc ne main show ?thesis
    unfolding Let_def C_def[symmetric] N_def[symmetric] by blast
qed

text \<open>Twelve repositories, five at a time: three batches, the last of two repositories,
  and two delays.\<close>

theorem batches_of_run_witness:
  "updateBranchProtection (options False (Some [''ci'']) 5)
      (\<lambda>i. always (Inr (requiring [''ci'']))) (replicate 12 (sample_repo ''service''))
      True 0 \<noteq> [] \<and>
   list_all (\<lambda>st. length (batches st) = 3 \<and> members (batches st ! 2) = [10, 11] \<and>
                  length (finished (batches st ! 2)) = 2 \<and> pauses st = [2000, 2000])
     (updateBranchProtection (options False (Some [''ci'']) 5)
        (\<lambda>i. always (Inr (requiring [''ci'']))) (replicate 12 (sample_repo ''service''))
        True 0)"
proof -
  let ?sts = "updateBranchProtection (options False (Some [''ci'']) 5)
      (\<lambda>i. always (Inr (requiring [''ci'']))) (replicate 12 (sample_repo ''service''))
      True 0"
  have C: "MAX_CONCURRENCY (options False (Some [''ci'']) 5) = 5"
    by (simp add: MAX_CONCURRENCY_def options_def)
  note th = batches_of_run[where cfg = "options False (Some [''ci'']) 5"
      and github = "\<lambda>i. always (Inr (requiring [''ci'']))"
      and repos = "replicate 12 (sample_repo ''service'')"
      and reporting = True and t = 0, unfolded Let_def C]
  have "length (batches st) = 3 \<and> members (batches st ! 2) = [10, 11] \<and>
      length (finished (batches st ! 2)) = 2 \<and> pauses st = [2000, 2000]"
    if "st \<in> set ?sts" for st
  proof -
    from th that have len: "length (batches st) = 3" by simp
    from th that have "\<forall>k<length (batches st).
         members (batches st ! k) = [k * 5 ..< min ((k + 1) * 5) 12] \<and>
         length (finished (batches st ! k)) = length (members (batches st ! k))"
      by simp
    with len have "members (batches st ! 2) = [2 * 5 ..< min ((2 + 1) * 5) 12] \<and>
         length (finished (batches st ! 2)) = length (members (batches st ! 2))"
      by (metis numeral_3_eq_3 lessI numeral_2_eq_2)
    then have m: "members (batches st ! 2) = [10, 11]"
      and f: "length (finished (batches st ! 2)) = 2"
      by simp_all
    from th that len have p: "pauses st = [2000, 2000]"
      by (simp add: numeral_2_eq_2)
    from len m f p show ?thesis by simp
  qed
  with th show ?thesis by (simp add: list_all_iff)
qed

subsection \<open>What a run logs and reports\<close>








end
